theory Spec2Isabelle
  imports Complex_Main "HOL-Library.Word" "HOL-Library.Multiset" "HOL-Library.Log_Nat"
begin

section \<open>The OCP worker: values of the JavaScript program\<close>

text \<open>
  The development embeds \<^verbatim>\<open>ocp-worker/src/worker.js\<close>: the cosine similarity, the
  batched embedding loop, the semantic reranker and the two request handlers
  \<^verbatim>\<open>handleAsk\<close> and \<^verbatim>\<open>handleEmbed\<close>.

  A JavaScript string is a sequence of UTF-16 code units; \<^verbatim>\<open>length\<close> and
  \<^verbatim>\<open>slice\<close> count code units.
\<close>

type_synonym jsstring = "16 word list"

definition lit :: "string \<Rightarrow> jsstring" where
  "lit s = map (\<lambda>c. of_nat (of_char c)) s"

text \<open>
  Numbers. A JavaScript number is an IEEE 754 binary64 value: a finite double, one of the
  two infinities, or \<^verbatim>\<open>NaN\<close>. A finite double is held as the real number it denotes.
  The two zeros are not told apart: the sign of a zero shows only when something is divided
  by it, and the one division of the worker has a divisor that is never zero.

  Every arithmetic operation returns its exact result rounded to the nearest double, ties
  to the even significand, and an infinity when the rounded magnitude reaches \<open>2 ^ 1024\<close>.
  \<open>round_even\<close> rounds a real to the nearest integer, ties to the even one. \<open>rne\<close> rounds
  a real to the nearest value \<open>m * 2 ^ e\<close> with \<open>\<bar>m\<bar> < 2 ^ 53\<close> and \<open>e \<ge> - 1074\<close>: the
  magnitude is counted in units of \<open>2 ^ - 1074\<close>, the smallest positive double; the bits
  below the 53 leading ones are rounded away; and the count is turned back into a real.
  \<open>fl\<close> is the double an exact result becomes.
\<close>

datatype jsnum = Num real | PosInf | NegInf | NaN

definition round_even :: "real \<Rightarrow> int" where
  "round_even y =
     (let f = \<lfloor>y\<rfloor> in
      if y - of_int f < 1 / 2 then f
      else if 1 / 2 < y - of_int f then f + 1
      else if even f then f else f + 1)"

definition subnormal_scale :: real where
  "subnormal_scale = 2 ^ 1074"

definition rne_mag :: "real \<Rightarrow> real" where
  "rne_mag z =
     (let y = z * subnormal_scale;
          sh = nat (bitlen \<lfloor>y\<rfloor> - 53)
      in of_int (round_even (y / 2 ^ sh)) * 2 ^ sh / subnormal_scale)"

definition rne :: "real \<Rightarrow> real" where
  "rne z = (if z < 0 then - rne_mag (- z) else rne_mag z)"

definition overflow_threshold :: real where
  "overflow_threshold = 2 ^ 1024"

definition fl :: "real \<Rightarrow> jsnum" where
  "fl z =
     (if overflow_threshold \<le> \<bar>rne z\<bar> then (if 0 < z then PosInf else NegInf)
      else Num (rne z))"

text \<open>
  The operators \<^verbatim>\<open>+\<close>, \<^verbatim>\<open>-\<close>, \<^verbatim>\<open>*\<close>, \<^verbatim>\<open>/\<close> and \<^verbatim>\<open>Math.sqrt\<close> on numbers, with the
  IEEE rules for infinities and \<^verbatim>\<open>NaN\<close>. \<^verbatim>\<open>Math.sqrt\<close> is taken as the correctly rounded
  square root. A finite number divided by zero gives an infinity of the sign of the
  dividend (the zero is read as positive), and zero by zero gives \<^verbatim>\<open>NaN\<close>.
\<close>

fun jsneg :: "jsnum \<Rightarrow> jsnum" where
  "jsneg (Num x) = Num (- x)"
| "jsneg PosInf = NegInf"
| "jsneg NegInf = PosInf"
| "jsneg NaN = NaN"

fun jsadd :: "jsnum \<Rightarrow> jsnum \<Rightarrow> jsnum" where
  "jsadd (Num x) (Num y) = fl (x + y)"
| "jsadd NaN _ = NaN"
| "jsadd _ NaN = NaN"
| "jsadd PosInf NegInf = NaN"
| "jsadd NegInf PosInf = NaN"
| "jsadd PosInf _ = PosInf"
| "jsadd _ PosInf = PosInf"
| "jsadd NegInf _ = NegInf"
| "jsadd _ NegInf = NegInf"

definition jssub :: "jsnum \<Rightarrow> jsnum \<Rightarrow> jsnum" where
  "jssub a b = jsadd a (jsneg b)"

fun jsmul :: "jsnum \<Rightarrow> jsnum \<Rightarrow> jsnum" where
  "jsmul (Num x) (Num y) = fl (x * y)"
| "jsmul NaN _ = NaN"
| "jsmul _ NaN = NaN"
| "jsmul (Num x) PosInf = (if x = 0 then NaN else if 0 < x then PosInf else NegInf)"
| "jsmul (Num x) NegInf = (if x = 0 then NaN else if 0 < x then NegInf else PosInf)"
| "jsmul PosInf (Num y) = (if y = 0 then NaN else if 0 < y then PosInf else NegInf)"
| "jsmul NegInf (Num y) = (if y = 0 then NaN else if 0 < y then NegInf else PosInf)"
| "jsmul PosInf PosInf = PosInf"
| "jsmul PosInf NegInf = NegInf"
| "jsmul NegInf PosInf = NegInf"
| "jsmul NegInf NegInf = PosInf"

fun jsdiv :: "jsnum \<Rightarrow> jsnum \<Rightarrow> jsnum" where
  "jsdiv (Num x) (Num y) =
     (if y = 0 then (if x = 0 then NaN else if 0 < x then PosInf else NegInf)
      else fl (x / y))"
| "jsdiv NaN _ = NaN"
| "jsdiv _ NaN = NaN"
| "jsdiv (Num x) PosInf = Num 0"
| "jsdiv (Num x) NegInf = Num 0"
| "jsdiv PosInf (Num y) = (if 0 \<le> y then PosInf else NegInf)"
| "jsdiv NegInf (Num y) = (if 0 \<le> y then NegInf else PosInf)"
| "jsdiv _ _ = NaN"

fun jssqrt :: "jsnum \<Rightarrow> jsnum" where
  "jssqrt (Num x) = (if x < 0 then NaN else fl (sqrt x))"
| "jssqrt PosInf = PosInf"
| "jssqrt NegInf = NaN"
| "jssqrt NaN = NaN"

text \<open>The literal \<^verbatim>\<open>1e-8\<close>: the double nearest to \<open>10 ^ - 8\<close>.\<close>

definition EPSILON :: jsnum where
  "EPSILON = fl (1 / 10 ^ 8)"

datatype js_error = TypeError | SyntaxError | CollaboratorError

text \<open>Constants of the worker.\<close>

definition MAX_QUESTION_LENGTH :: nat where "MAX_QUESTION_LENGTH = 1000"
definition MAX_CHUNKS_ACCEPTED :: nat where "MAX_CHUNKS_ACCEPTED = 100"
definition MAX_CHUNK_TEXT_LENGTH :: nat where "MAX_CHUNK_TEXT_LENGTH = 5000"
definition MAX_EMBED_TEXTS :: nat where "MAX_EMBED_TEXTS = 200"
definition MAX_EMBED_TEXT_LENGTH :: nat where "MAX_EMBED_TEXT_LENGTH = 5000"
definition RERANK_TOP_N :: nat where "RERANK_TOP_N = 25"
definition EMBEDDING_BATCH_SIZE :: nat where "EMBEDDING_BATCH_SIZE = 100"

text \<open>
  Array primitives. \<^verbatim>\<open>xs.slice(i, j)\<close> for \<open>0 \<le> i \<le> j\<close>; \<^verbatim>\<open>xs[i]\<close>, which is
  \<^verbatim>\<open>undefined\<close> (here \<open>None\<close>) out of range.
\<close>

definition slice :: "'a list \<Rightarrow> nat \<Rightarrow> nat \<Rightarrow> 'a list" where
  "slice xs i j = take (j - i) (drop i xs)"

definition index :: "'a list \<Rightarrow> nat \<Rightarrow> 'a option" where
  "index xs i = (if i < length xs then Some (xs ! i) else None)"

text \<open>
  A read \<^verbatim>\<open>v[i]\<close> of a numeric array used in arithmetic. The entries of a vector are
  finite numbers (the collaborator's reply is JSON, which has no infinity and no
  \<^verbatim>\<open>NaN\<close>); a read out of range gives \<^verbatim>\<open>undefined\<close>, which arithmetic turns into \<^verbatim>\<open>NaN\<close>.
  A vector of the model may hold any real number: what is proved of all vectors holds of
  the vectors of doubles, and the vectors of the examples hold doubles only.
\<close>

definition elem :: "real list \<Rightarrow> nat \<Rightarrow> jsnum" where
  "elem v i = (if i < length v then Num (v ! i) else NaN)"

section \<open>Cosine similarity\<close>

text \<open>
  The loop of \<^verbatim>\<open>cosineSimilarity\<close>, from index \<open>i\<close> with the three accumulators
  \<^verbatim>\<open>dot\<close>, \<^verbatim>\<open>normA\<close>, \<^verbatim>\<open>normB\<close>.
\<close>

function cosineLoop ::
  "real list \<Rightarrow> real list \<Rightarrow> nat \<Rightarrow> jsnum \<times> jsnum \<times> jsnum \<Rightarrow> jsnum \<times> jsnum \<times> jsnum" where
  "cosineLoop a b i (dot, normA, normB) =
     (if i < length a
      then cosineLoop a b (i + 1)
             (jsadd dot (jsmul (elem a i) (elem b i)),
              jsadd normA (jsmul (elem a i) (elem a i)),
              jsadd normB (jsmul (elem b i) (elem b i)))
      else (dot, normA, normB))"
  by pat_completeness auto
termination
  by (relation "measure (\<lambda>(a, b, i, acc). length a - i)") auto

declare cosineLoop.simps [simp del]

text \<open>
  \<^verbatim>\<open>cosineSimilarity(a, b)\<close> on arguments that may be \<^verbatim>\<open>undefined\<close>:
  \<^verbatim>\<open>a.length\<close> throws when \<open>a\<close> is undefined, and \<^verbatim>\<open>b[i]\<close> throws in the first
  iteration when \<open>b\<close> is undefined (with an empty \<open>a\<close> the loop body never runs and
  \<open>b\<close> is never read).
\<close>

definition cosineSimilarity :: "real list option \<Rightarrow> real list option \<Rightarrow> js_error + jsnum" where
  "cosineSimilarity a b =
     (case a of
        None \<Rightarrow> Inl TypeError
      | Some av \<Rightarrow>
          if 0 < length av \<and> b = None then Inl TypeError
          else (case cosineLoop av (case b of Some bv \<Rightarrow> bv | None \<Rightarrow> []) 0 (Num 0, Num 0, Num 0) of
                  (dot, normA, normB) \<Rightarrow>
                    Inr (jsdiv dot
                          (jsadd (jsmul (jssqrt normA) (jssqrt normB)) EPSILON))))"

section \<open>The embedding collaborator and the batching loop\<close>

text \<open>
  One call \<^verbatim>\<open>env.AI.run(model, {text: batch})\<close> either throws, or returns a value
  whose \<^verbatim>\<open>data\<close> cannot be spread (the result or its \<^verbatim>\<open>data\<close> is missing or not
  iterable, so \<^verbatim>\<open>push(...result.data)\<close> throws a TypeError), or returns an array of
  numeric vectors. The collaborator is a function of the number of calls already made in
  this request and of the batch, so it may answer the same batch differently each time.
\<close>

datatype ai_result = AiThrows | AiNoData | AiData "real list list"

type_synonym ai_binding = "nat \<Rightarrow> jsstring list \<Rightarrow> ai_result"

function embedLoop ::
  "ai_binding \<Rightarrow> jsstring list \<Rightarrow> nat \<Rightarrow> real list list \<Rightarrow> js_error + real list list" where
  "embedLoop run texts i allEmbeddings =
     (if i < length texts
      then (case run (i div EMBEDDING_BATCH_SIZE) (slice texts i (i + EMBEDDING_BATCH_SIZE)) of
              AiThrows \<Rightarrow> Inl CollaboratorError
            | AiNoData \<Rightarrow> Inl TypeError
            | AiData d \<Rightarrow> embedLoop run texts (i + EMBEDDING_BATCH_SIZE) (allEmbeddings @ d))
      else Inr allEmbeddings)"
  by pat_completeness auto
termination
  by (relation "measure (\<lambda>(run, texts, i, acc). length texts - i)")
     (auto simp: EMBEDDING_BATCH_SIZE_def)

declare embedLoop.simps [simp del]

section \<open>Sorting\<close>

text \<open>
  \<^verbatim>\<open>Array.prototype.sort(comparefn)\<close> is stable, and a comparator result that is
  \<^verbatim>\<open>NaN\<close> counts as zero. It is modelled as a stable insertion sort: an element goes
  behind its neighbour only when the comparator is positive. When the comparator orders
  the elements consistently (as it does when every similarity is a finite number), a
  stable sort has exactly one result, the one \<open>js_sort\<close> returns. When some comparator
  results are \<^verbatim>\<open>NaN\<close> and others are not, the comparator is not consistent and ECMAScript
  leaves the order to the engine; \<open>js_sort\<close> then gives one permitted order, and only what
  holds of every order (the result is a permutation of the array) is proved of that case.
\<close>

fun positive :: "jsnum \<Rightarrow> bool" where
  "positive (Num r) = (0 < r)"
| "positive PosInf = True"
| "positive NegInf = False"
| "positive NaN = False"

fun js_insert :: "('a \<Rightarrow> 'a \<Rightarrow> jsnum) \<Rightarrow> 'a \<Rightarrow> 'a list \<Rightarrow> 'a list" where
  "js_insert cmp x [] = [x]"
| "js_insert cmp x (y # ys) =
     (if positive (cmp x y) then y # js_insert cmp x ys else x # y # ys)"

definition js_sort :: "('a \<Rightarrow> 'a \<Rightarrow> jsnum) \<Rightarrow> 'a list \<Rightarrow> 'a list" where
  "js_sort cmp xs = foldr (js_insert cmp) xs []"

section \<open>The semantic reranker\<close>

record chunk =
  chunk_id :: jsstring
  sectionTitle :: jsstring
  chunk_text :: jsstring

text \<open>
  The objects \<^verbatim>\<open>rerankChunks\<close> returns: a chunk with its \<^verbatim>\<open>similarity\<close>, or, on the
  fallback path, the chunk as it came (no \<^verbatim>\<open>similarity\<close> property, here \<open>None\<close>).
\<close>

record ranked = chunk +
  similarity :: "jsnum option"

definition scored :: "chunk \<Rightarrow> jsnum \<Rightarrow> ranked" where
  "scored c s = \<lparr>chunk_id = chunk_id c, sectionTitle = sectionTitle c,
                 chunk_text = chunk_text c, similarity = Some s\<rparr>"

definition unscored :: "chunk \<Rightarrow> ranked" where
  "unscored c = \<lparr>chunk_id = chunk_id c, sectionTitle = sectionTitle c,
                  chunk_text = chunk_text c, similarity = None\<rparr>"

definition chunk_of :: "ranked \<Rightarrow> chunk" where
  "chunk_of r = \<lparr>chunk_id = chunk_id r, sectionTitle = sectionTitle r,
                  chunk_text = chunk_text r\<rparr>"

text \<open>Reading \<^verbatim>\<open>x.similarity\<close> in arithmetic: an absent property gives \<^verbatim>\<open>NaN\<close>.\<close>

definition sim :: "ranked \<Rightarrow> jsnum" where
  "sim r = (case similarity r of Some s \<Rightarrow> s | None \<Rightarrow> NaN)"

text \<open>
  \<^verbatim>\<open>chunks.map((chunk, i) => ({...chunk, similarity: cosineSimilarity(q, ces[i])}))\<close>,
  from index \<open>i\<close>; the first exception ends the map.
\<close>

fun scoreChunks ::
  "real list option \<Rightarrow> real list list \<Rightarrow> nat \<Rightarrow> chunk list \<Rightarrow> js_error + ranked list" where
  "scoreChunks queryEmbedding chunkEmbeddings i [] = Inr []"
| "scoreChunks queryEmbedding chunkEmbeddings i (c # cs) =
     (case cosineSimilarity queryEmbedding (index chunkEmbeddings i) of
        Inl e \<Rightarrow> Inl e
      | Inr s \<Rightarrow>
          (case scoreChunks queryEmbedding chunkEmbeddings (i + 1) cs of
             Inl e \<Rightarrow> Inl e
           | Inr rest \<Rightarrow> Inr (scored c s # rest)))"

definition rerankChunks :: "jsstring \<Rightarrow> chunk list \<Rightarrow> ai_binding \<Rightarrow> ranked list" where
  "rerankChunks question chunks run =
     (let texts = question # map chunk_text chunks in
      case embedLoop run texts 0 [] of
        Inl err \<Rightarrow> map unscored chunks
      | Inr allEmbeddings \<Rightarrow>
          (let queryEmbedding = index allEmbeddings 0;
               chunkEmbeddings = slice allEmbeddings 1 (length allEmbeddings)
           in case scoreChunks queryEmbedding chunkEmbeddings 0 chunks of
                Inl err \<Rightarrow> map unscored chunks
              | Inr scoredChunks \<Rightarrow> js_sort (\<lambda>a b. jssub (sim b) (sim a)) scoredChunks))"

section \<open>Requests, the environment and the responses\<close>

text \<open>
  The value \<^verbatim>\<open>request.json()\<close> resolves to. An object keeps its members in the order
  of the text; where a key is repeated the last member wins, as in \<^verbatim>\<open>JSON.parse\<close>.
\<close>

datatype json =
    JNull
  | JBool bool
  | JNum real
  | JStr jsstring
  | JArr "json list"
  | JObj "(jsstring \<times> json) list"

text \<open>
  A property read \<^verbatim>\<open>v.k\<close> on a value that is not \<^verbatim>\<open>null\<close>, for the names the
  worker reads (\<^verbatim>\<open>question\<close>, \<^verbatim>\<open>chunks\<close>, \<^verbatim>\<open>texts\<close>, \<^verbatim>\<open>id\<close>, \<^verbatim>\<open>text\<close>,
  \<^verbatim>\<open>sectionTitle\<close>, \<^verbatim>\<open>content\<close>): only an object can have them, and \<open>None\<close> is
  \<^verbatim>\<open>undefined\<close>.
\<close>

fun getProp :: "json \<Rightarrow> jsstring \<Rightarrow> json option" where
  "getProp (JObj kvs) k = map_of (rev kvs) k"
| "getProp _ k = None"

fun truthy :: "json \<Rightarrow> bool" where
  "truthy JNull = False"
| "truthy (JBool b) = b"
| "truthy (JNum x) = (x \<noteq> 0)"
| "truthy (JStr s) = (s \<noteq> [])"
| "truthy (JArr xs) = True"
| "truthy (JObj kvs) = True"

text \<open>\<^verbatim>\<open>!v\<close> and \<^verbatim>\<open>typeof v === "string"\<close> on a value that may be undefined.\<close>

definition falsy :: "json option \<Rightarrow> bool" where
  "falsy v = (case v of None \<Rightarrow> True | Some j \<Rightarrow> \<not> truthy j)"

definition isString :: "json option \<Rightarrow> bool" where
  "isString v = (case v of Some (JStr s) \<Rightarrow> True | _ \<Rightarrow> False)"

text \<open>The string behind a value that has passed the \<^verbatim>\<open>typeof\<close> test.\<close>

definition the_str :: "json option \<Rightarrow> jsstring" where
  "the_str v = (case v of Some (JStr s) \<Rightarrow> s | _ \<Rightarrow> [])"

text \<open>
  The bindings of the worker: the API key of the text-generation service and the
  embedding binding \<^verbatim>\<open>env.AI\<close>, either of which may be absent.
\<close>

record env =
  ANTHROPIC_API_KEY :: "jsstring option"
  AI :: "ai_binding option"

text \<open>
  The call to the text-generation service. Of the request only the API key and the user
  message vary; the model name, the token limit and the system prompt are constants.
  The call throws, or resolves to a response with its \<^verbatim>\<open>ok\<close> flag and a body that
  cannot be read, or is read as text that is JSON (\<open>Some\<close>) or not (\<open>None\<close>).
\<close>

record claude_request =
  x_api_key :: jsstring
  user_content :: jsstring

datatype fetch_body = BodyUnreadable | BodyText "json option"

datatype fetch_result = FetchThrows | FetchResponse bool fetch_body

type_synonym fetcher = "claude_request \<Rightarrow> fetch_result"

text \<open>The responses of the worker: the status and the JSON body (the CORS headers are left out).\<close>

datatype response_body =
    ErrorBody jsstring
  | AnswerBody json "jsstring list"
  | EmbedBody "real list list"

record response =
  payload :: response_body
  status :: nat

definition jsonResponse :: "response_body \<Rightarrow> nat \<Rightarrow> response" where
  "jsonResponse b st = \<lparr>payload = b, status = st\<rparr>"

section \<open>The question route\<close>

text \<open>The filter and the map of the chunk sanitiser.\<close>

definition validChunk :: "json \<Rightarrow> bool" where
  "validChunk c =
     (truthy c \<and> isString (getProp c (lit ''id'')) \<and> isString (getProp c (lit ''text'')))"

definition sanitizeChunk :: "json \<Rightarrow> chunk" where
  "sanitizeChunk c =
     \<lparr>chunk_id = slice (the_str (getProp c (lit ''id''))) 0 50,
      sectionTitle =
        (if isString (getProp c (lit ''sectionTitle''))
         then slice (the_str (getProp c (lit ''sectionTitle''))) 0 200 else []),
      chunk_text = slice (the_str (getProp c (lit ''text''))) 0 MAX_CHUNK_TEXT_LENGTH\<rparr>"

definition sanitizeChunks :: "json list \<Rightarrow> chunk list" where
  "sanitizeChunks chunks = map sanitizeChunk (filter validChunk chunks)"

text \<open>Step 1 of \<^verbatim>\<open>handleAsk\<close>: the chunks kept for the prompt.\<close>

definition bestChunks :: "env \<Rightarrow> jsstring \<Rightarrow> chunk list \<Rightarrow> ranked list" where
  "bestChunks e question sanitizedChunks =
     (case AI e of
        Some run \<Rightarrow> slice (rerankChunks question sanitizedChunks run) 0 RERANK_TOP_N
      | None \<Rightarrow> slice (map unscored sanitizedChunks) 0 RERANK_TOP_N)"

fun join :: "jsstring \<Rightarrow> jsstring list \<Rightarrow> jsstring" where
  "join sep [] = []"
| "join sep [x] = x"
| "join sep (x # y # ys) = x @ sep @ join sep (y # ys)"

definition renderChunk :: "ranked \<Rightarrow> jsstring" where
  "renderChunk c =
     lit ''['' @ chunk_id c @ lit ''] ('' @ sectionTitle c @ lit '')'' @ [10] @ chunk_text c"

definition userMessage :: "jsstring \<Rightarrow> ranked list \<Rightarrow> jsstring" where
  "userMessage question best =
     (let chunksText = join ([10, 10] @ lit ''---'' @ [10, 10]) (map renderChunk best);
          sanitizedQuestion = slice question 0 MAX_QUESTION_LENGTH
      in lit ''A resident asks: '' @ [34] @ sanitizedQuestion @ [34] @ [10, 10]
         @ lit ''Here are the relevant OCP policy excerpts to base your answer on:'' @ [10, 10]
         @ chunksText @ [10, 10]
         @ lit ''Please provide a clear, helpful answer to the resident'' @ [39]
         @ lit ''s question based on these policy excerpts.'')"

text \<open>
  \<^verbatim>\<open>data.content?.[0]?.text\<close>. The read \<^verbatim>\<open>data.content\<close> throws on \<^verbatim>\<open>null\<close>; each
  \<^verbatim>\<open>?.\<close> gives undefined on \<^verbatim>\<open>null\<close> and undefined.
\<close>

fun index0 :: "json \<Rightarrow> json option" where
  "index0 (JArr xs) = index xs 0"
| "index0 (JStr s) = (case s of [] \<Rightarrow> None | c # cs \<Rightarrow> Some (JStr [c]))"
| "index0 (JObj kvs) = getProp (JObj kvs) (lit ''0'')"
| "index0 _ = None"

definition answerOf :: "json \<Rightarrow> js_error + json option" where
  "answerOf data =
     (case data of
        JNull \<Rightarrow> Inl TypeError
      | _ \<Rightarrow>
          (case getProp data (lit ''content'') of
             None \<Rightarrow> Inr None
           | Some JNull \<Rightarrow> Inr None
           | Some content \<Rightarrow>
               (case index0 content of
                  None \<Rightarrow> Inr None
                | Some JNull \<Rightarrow> Inr None
                | Some first \<Rightarrow> Inr (getProp first (lit ''text'')))))"

definition internalError :: response where
  "internalError = jsonResponse (ErrorBody (lit ''Internal error'')) 500"

text \<open>Step 2 of \<^verbatim>\<open>handleAsk\<close>: the call of the text-generation service and the reply.\<close>

definition askClaude :: "jsstring \<Rightarrow> jsstring \<Rightarrow> ranked list \<Rightarrow> fetcher \<Rightarrow> response" where
  "askClaude apiKey question best fetch =
     (case fetch \<lparr>x_api_key = apiKey, user_content = userMessage question best\<rparr> of
        FetchThrows \<Rightarrow> internalError
      | FetchResponse ok fb \<Rightarrow>
          if \<not> ok then
            (case fb of
               BodyUnreadable \<Rightarrow> internalError
             | BodyText t \<Rightarrow>
                 jsonResponse (ErrorBody (lit ''AI service temporarily unavailable'')) 502)
          else
            (case fb of
               BodyUnreadable \<Rightarrow> internalError
             | BodyText None \<Rightarrow> internalError
             | BodyText (Some data) \<Rightarrow>
                 (case answerOf data of
                    Inl err \<Rightarrow> internalError
                  | Inr answer \<Rightarrow>
                      if falsy answer then
                        jsonResponse
                          (ErrorBody (lit ''AI service returned an unexpected response'')) 502
                      else jsonResponse (AnswerBody (the answer) (map chunk_id best)) 200)))"

text \<open>
  \<^verbatim>\<open>handleAsk\<close> after the destructuring \<^verbatim>\<open>const { question, chunks } = body\<close>:
  the guards in the order of the source, then the two steps.
\<close>

definition handleAskBody :: "json option \<Rightarrow> json option \<Rightarrow> env \<Rightarrow> fetcher \<Rightarrow> response" where
  "handleAskBody question chunks e fetch =
     (if falsy question \<or> \<not> isString question then
        jsonResponse (ErrorBody (lit ''Missing or invalid question'')) 400
      else
        (case chunks of
           Some (JArr cs) \<Rightarrow>
             if length cs = 0 then
               jsonResponse (ErrorBody (lit ''Missing or empty chunks array'')) 400
             else if length (the_str question) > MAX_QUESTION_LENGTH then
               jsonResponse
                 (ErrorBody (lit ''Question too long. Maximum is 1000 characters.'')) 400
             else if length cs > MAX_CHUNKS_ACCEPTED then
               jsonResponse (ErrorBody (lit ''Too many chunks. Maximum is 100.'')) 400
             else
               (let sanitizedChunks = sanitizeChunks cs
                in if length sanitizedChunks = 0 then
                     jsonResponse (ErrorBody (lit ''No valid chunks provided'')) 400
                   else
                     (case ANTHROPIC_API_KEY e of
                        None \<Rightarrow>
                          jsonResponse (ErrorBody (lit ''API key not configured'')) 500
                      | Some apiKey \<Rightarrow>
                          if apiKey = [] then
                            jsonResponse (ErrorBody (lit ''API key not configured'')) 500
                          else
                            askClaude apiKey (the_str question)
                              (bestChunks e (the_str question) sanitizedChunks) fetch))
         | _ \<Rightarrow> jsonResponse (ErrorBody (lit ''Missing or empty chunks array'')) 400))"

text \<open>
  \<^verbatim>\<open>handleAsk\<close>. The request is what \<^verbatim>\<open>request.json()\<close> gives: an exception or the
  parsed body. Every exception inside the handler ends in the 500 of its \<^verbatim>\<open>catch\<close>;
  destructuring a \<^verbatim>\<open>null\<close> body is one.
\<close>

definition handleAsk :: "js_error + json \<Rightarrow> env \<Rightarrow> fetcher \<Rightarrow> response" where
  "handleAsk request e fetch =
     (case request of
        Inl err \<Rightarrow> internalError
      | Inr body \<Rightarrow>
          if body = JNull then internalError
          else handleAskBody (getProp body (lit ''question'')) (getProp body (lit ''chunks''))
                 e fetch)"

section \<open>The embedding route\<close>

definition sanitizeTexts :: "json list \<Rightarrow> jsstring list" where
  "sanitizeTexts texts =
     filter (\<lambda>t. length t > 0)
       (map (\<lambda>t. case t of JStr s \<Rightarrow> slice s 0 MAX_EMBED_TEXT_LENGTH | _ \<Rightarrow> []) texts)"

definition embedFailed :: response where
  "embedFailed = jsonResponse (ErrorBody (lit ''Embedding failed'')) 500"

definition handleEmbed :: "js_error + json \<Rightarrow> env \<Rightarrow> response" where
  "handleEmbed request e =
     (case request of
        Inl err \<Rightarrow> embedFailed
      | Inr body \<Rightarrow>
          if body = JNull then embedFailed
          else
          (case getProp body (lit ''texts'') of
             Some (JArr texts) \<Rightarrow>
               if length texts = 0 then
                 jsonResponse (ErrorBody (lit ''Missing '' @ [39] @ lit ''texts'' @ [39] @ lit '' array'')) 400
               else if length texts > MAX_EMBED_TEXTS then
                 jsonResponse (ErrorBody (lit ''Too many texts. Maximum is 200.'')) 400
               else
                 (let sanitized = sanitizeTexts texts
                  in if length sanitized = 0 then
                       jsonResponse (ErrorBody (lit ''No valid text strings provided'')) 400
                     else
                       (case AI e of
                          None \<Rightarrow> embedFailed
                        | Some run \<Rightarrow>
                            (case embedLoop run sanitized 0 [] of
                               Inl err \<Rightarrow> embedFailed
                             | Inr allEmbeddings \<Rightarrow>
                                 jsonResponse (EmbedBody allEmbeddings) 200)))
           | _ \<Rightarrow>
               jsonResponse (ErrorBody (lit ''Missing '' @ [39] @ lit ''texts'' @ [39] @ lit '' array'')) 400))"

section \<open>Notions used to state the properties\<close>

text \<open>
  The dot product, the magnitude and the similarity in the words of the specification,
  over the real numbers.
\<close>

definition dotp :: "real list \<Rightarrow> real list \<Rightarrow> real" where
  "dotp a b = (\<Sum>(x, y)\<leftarrow>zip a b. x * y)"

definition magnitude :: "real list \<Rightarrow> real" where
  "magnitude a = sqrt (dotp a a)"

definition cosine :: "real list \<Rightarrow> real list \<Rightarrow> real" where
  "cosine a b = dotp a b / (magnitude a * magnitude b + 1 / 10 ^ 8)"

text \<open>
  A running sum as the loop of \<^verbatim>\<open>cosineSimilarity\<close> computes it while every value stays
  finite: each term is rounded, added to the sum, and the sum is rounded.
\<close>

fun racc :: "real \<Rightarrow> real list \<Rightarrow> real" where
  "racc s [] = s"
| "racc s (p # ps) = racc (rne (s + rne p)) ps"

text \<open>A multiple of \<open>2 ^ - 1074\<close>, the smallest positive double; every finite double is one.\<close>

definition onGrid :: "real \<Rightarrow> bool" where
  "onGrid x = (x * subnormal_scale = of_int \<lfloor>x * subnormal_scale\<rfloor>)"

text \<open>Both similarities are numbers and the first is not below the second.\<close>

definition sim_ge :: "ranked \<Rightarrow> ranked \<Rightarrow> bool" where
  "sim_ge a b = (case (sim a, sim b) of (Num x, Num y) \<Rightarrow> y \<le> x | _ \<Rightarrow> False)"

text \<open>The \<open>k\<close>-th batch of the loop.\<close>

definition batchOf :: "jsstring list \<Rightarrow> nat \<Rightarrow> jsstring list" where
  "batchOf texts k =
     slice texts (EMBEDDING_BATCH_SIZE * k) (EMBEDDING_BATCH_SIZE * k + EMBEDDING_BATCH_SIZE)"

text \<open>
  The contract of the embedding collaborator: a call with a batch of one to a hundred texts
  returns as many vectors as the batch has texts; and the same with vectors of one
  dimension whose components lie between \<open>-1\<close> and \<open>1\<close>, as those of a vector of unit
  length do.
\<close>

definition answersEveryText :: "ai_binding \<Rightarrow> bool" where
  "answersEveryText run =
     (\<forall>k batch. batch \<noteq> [] \<and> length batch \<le> EMBEDDING_BATCH_SIZE \<longrightarrow>
        (\<exists>d. run k batch = AiData d \<and> length d = length batch))"

definition embedsWell :: "ai_binding \<Rightarrow> nat \<Rightarrow> bool" where
  "embedsWell run n =
     (\<forall>k batch. batch \<noteq> [] \<and> length batch \<le> EMBEDDING_BATCH_SIZE \<longrightarrow>
        (\<exists>d. run k batch = AiData d \<and> length d = length batch
             \<and> (\<forall>v\<in>set d. length v = n \<and> (\<forall>x\<in>set v. \<bar>x\<bar> \<le> 1))))"

text \<open>
  Failures of the embedding step that raise an exception: a batch call that throws or whose
  result has no data to spread; and results that together hold too few vectors, so that the
  query vector or a candidate's vector is \<^verbatim>\<open>undefined\<close> where it is read.
\<close>

definition embeddingThrows :: "ai_binding \<Rightarrow> jsstring list \<Rightarrow> bool" where
  "embeddingThrows run texts =
     (\<exists>k<length texts. EMBEDDING_BATCH_SIZE * k < length texts
        \<and> (run k (batchOf texts k) = AiThrows \<or> run k (batchOf texts k) = AiNoData))"

definition tooFewVectors :: "real list list \<Rightarrow> chunk list \<Rightarrow> bool" where
  "tooFewVectors vs chunks = (length vs \<le> length chunks \<and> (vs = [] \<or> vs ! 0 \<noteq> []))"

text \<open>
  A request that passes every guard of \<^verbatim>\<open>handleAsk\<close>, with its question and its chunk
  array; and a body that fails one of them.
\<close>

definition wellSized :: "json \<Rightarrow> jsstring \<Rightarrow> json list \<Rightarrow> bool" where
  "wellSized body q cs =
     (getProp body (lit ''question'') = Some (JStr q) \<and> q \<noteq> []
      \<and> length q \<le> MAX_QUESTION_LENGTH
      \<and> getProp body (lit ''chunks'') = Some (JArr cs) \<and> cs \<noteq> []
      \<and> length cs \<le> MAX_CHUNKS_ACCEPTED)"

definition validRequest :: "json \<Rightarrow> jsstring \<Rightarrow> json list \<Rightarrow> bool" where
  "validRequest body q cs = (wellSized body q cs \<and> (\<exists>c\<in>set cs. validChunk c))"

definition validationFailure :: "json \<Rightarrow> bool" where
  "validationFailure body =
     ((case getProp body (lit ''question'') of
         Some (JStr q) \<Rightarrow> q = [] \<or> length q > MAX_QUESTION_LENGTH
       | _ \<Rightarrow> True)
      \<or> (case getProp body (lit ''chunks'') of
            Some (JArr cs) \<Rightarrow>
              cs = [] \<or> length cs > MAX_CHUNKS_ACCEPTED \<or> (\<forall>c\<in>set cs. \<not> validChunk c)
          | _ \<Rightarrow> True))"

text \<open>The entries of a \<^verbatim>\<open>texts\<close> array that the embedding route keeps.\<close>

definition nonEmptyString :: "json \<Rightarrow> bool" where
  "nonEmptyString t = (case t of JStr s \<Rightarrow> s \<noteq> [] | _ \<Rightarrow> False)"

text \<open>The answer in a reply of the text-generation service, when it has one.\<close>

definition fetchedAnswer :: "fetch_result \<Rightarrow> json option" where
  "fetchedAnswer r =
     (case r of
        FetchResponse True (BodyText (Some data)) \<Rightarrow>
          (case answerOf data of
             Inr (Some a) \<Rightarrow> if truthy a then Some a else None
           | _ \<Rightarrow> None)
      | _ \<Rightarrow> None)"

definition claudeRequest :: "jsstring \<Rightarrow> jsstring \<Rightarrow> ranked list \<Rightarrow> claude_request" where
  "claudeRequest key q best = \<lparr>x_api_key = key, user_content = userMessage q best\<rparr>"

subsection \<open>Concrete requests and collaborators\<close>

definition chunkA :: json where
  "chunkA = JObj [(lit ''id'', JStr (lit ''A.1'')), (lit ''text'', JStr (lit ''alpha''))]"

definition chunkB :: json where
  "chunkB = JObj [(lit ''id'', JStr (lit ''B.2'')), (lit ''sectionTitle'', JStr (lit ''Land'')),
                  (lit ''text'', JStr (lit ''be''))]"

definition chunkNoText :: json where
  "chunkNoText = JObj [(lit ''id'', JStr (lit ''C.3''))]"

text \<open>The two valid chunks above as the sanitiser leaves them.\<close>

definition plainChunks :: "chunk list" where
  "plainChunks =
     [\<lparr>chunk_id = lit ''A.1'', sectionTitle = [], chunk_text = lit ''alpha''\<rparr>,
      \<lparr>chunk_id = lit ''B.2'', sectionTitle = lit ''Land'', chunk_text = lit ''be''\<rparr>]"

definition askRequest :: "jsstring \<Rightarrow> json list \<Rightarrow> json" where
  "askRequest q cs = JObj [(lit ''question'', JStr q), (lit ''chunks'', JArr cs)]"

definition embedRequest :: "json list \<Rightarrow> json" where
  "embedRequest ts = JObj [(lit ''texts'', JArr ts)]"

text \<open>A text-generation service that answers, one that cannot be reached, one that refuses.\<close>

definition answeringFetch :: fetcher where
  "answeringFetch r =
     FetchResponse True
       (BodyText (Some (JObj [(lit ''content'', JArr [JObj [(lit ''text'', JStr (lit ''ok''))]])])))"

definition unreachableFetch :: fetcher where
  "unreachableFetch r = FetchThrows"

definition refusingFetch :: fetcher where
  "refusingFetch r = FetchResponse False (BodyText None)"

text \<open>
  Embedding collaborators: one that returns a vector for every text, of the text's length
  and one; one that is down; one that returns four vectors whatever the batch.
\<close>

definition lengthAI :: ai_binding where
  "lengthAI k batch = AiData (map (\<lambda>t. [real (length t), 1]) batch)"

definition downAI :: ai_binding where
  "downAI k batch = AiThrows"

definition surplusAI :: ai_binding where
  "surplusAI k batch = AiData [[1, 0], [0, 1], [1, 0], [0, 0]]"

text \<open>
  Further collaborators: one that returns a unit vector along the first or the second axis
  for every text; one whose vectors have the one component \<open>2 ^ 600\<close> (a double); and one that answers its first
  call and is down from the second call on. And a hundred copies of one chunk.
\<close>

definition axisAI :: ai_binding where
  "axisAI k batch = AiData (map (\<lambda>t. if even (length t) then [1, 0] else [0, 1]) batch)"

definition huge :: real where
  "huge = 2 ^ 600"

definition hugeAI :: ai_binding where
  "hugeAI k batch = AiData (map (\<lambda>t. [huge]) batch)"

definition secondCallDownAI :: ai_binding where
  "secondCallDownAI k batch = (if k = 0 then AiData (map (\<lambda>t. [1, 0]) batch) else AiThrows)"

definition hundredChunks :: "chunk list" where
  "hundredChunks =
     replicate 100 \<lparr>chunk_id = lit ''A.1'', sectionTitle = [], chunk_text = lit ''alpha''\<rparr>"

definition envWith :: "ai_binding option \<Rightarrow> env" where
  "envWith ai = \<lparr>ANTHROPIC_API_KEY = Some (lit ''key''), AI = ai\<rparr>"

section \<open>The guards of the question route\<close>

lemma getProp_not_null: "getProp body k = Some v \<Longrightarrow> body \<noteq> JNull"
  by auto

lemma sanitizeChunks_empty: "(sanitizeChunks cs = []) = (\<forall>c\<in>set cs. \<not> validChunk c)"
  by (simp add: sanitizeChunks_def filter_empty_conv)

lemma handleAsk_valid:
  assumes "validRequest body q cs" and "ANTHROPIC_API_KEY e = Some key" and "key \<noteq> []"
  shows "handleAsk (Inr body) e fetch = askClaude key q (bestChunks e q (sanitizeChunks cs)) fetch"
proof -
  from assms(1) have q: "getProp body (lit ''question'') = Some (JStr q)" "q \<noteq> []"
      "length q \<le> MAX_QUESTION_LENGTH"
    and cs: "getProp body (lit ''chunks'') = Some (JArr cs)" "cs \<noteq> []"
      "length cs \<le> MAX_CHUNKS_ACCEPTED"
    and v: "sanitizeChunks cs \<noteq> []"
    by (auto simp: validRequest_def wellSized_def sanitizeChunks_empty)
  from q(1) have nn: "body \<noteq> JNull" by (rule getProp_not_null)
  show ?thesis
    using nn q cs v assms(2,3)
    by (simp add: handleAsk_def handleAskBody_def falsy_def isString_def the_str_def Let_def)
qed

text \<open>
  C7. A request whose chunk array has more than \<open>MAX_CHUNKS_ACCEPTED\<close> (100) entries is
  answered with status 400, whatever the bindings and the text-generation service are: the
  array is not cut to the limit and nothing is sent on. When the question passes its own
  guards the body of the answer is the message about the number of chunks.
\<close>

theorem too_many_chunks_rejected:
  assumes "getProp body (lit ''chunks'') = Some (JArr cs)"
    and "MAX_CHUNKS_ACCEPTED < length cs"
  shows "status (handleAsk (Inr body) e fetch) = 400
         \<and> (\<forall>q. getProp body (lit ''question'') = Some (JStr q) \<and> q \<noteq> []
                  \<and> length q \<le> MAX_QUESTION_LENGTH \<longrightarrow>
                handleAsk (Inr body) e fetch =
                  jsonResponse (ErrorBody (lit ''Too many chunks. Maximum is 100.'')) 400)"
proof -
  from assms(1) have nn: "body \<noteq> JNull" by (rule getProp_not_null)
  from assms(2) have ne: "cs \<noteq> []" by auto
  show ?thesis
    using nn assms ne
    by (auto simp: handleAsk_def handleAskBody_def jsonResponse_def falsy_def isString_def
        the_str_def)
qed

theorem too_many_chunks_rejected_witness:
  "handleAsk (Inr (askRequest (lit ''May I build?'') (replicate 101 chunkA)))
     (envWith None) answeringFetch
   = jsonResponse (ErrorBody (lit ''Too many chunks. Maximum is 100.'')) 400"
proof -
  have c: "getProp (askRequest (lit ''May I build?'') (replicate 101 chunkA)) (lit ''chunks'')
           = Some (JArr (replicate 101 chunkA))"
    by (simp add: askRequest_def lit_def)
  have q: "getProp (askRequest (lit ''May I build?'') (replicate 101 chunkA)) (lit ''question'')
           = Some (JStr (lit ''May I build?''))"
    by (simp add: askRequest_def lit_def)
  have l: "MAX_CHUNKS_ACCEPTED < length (replicate 101 chunkA)"
    by (simp add: MAX_CHUNKS_ACCEPTED_def)
  have ql: "lit ''May I build?'' \<noteq> [] \<and> length (lit ''May I build?'') \<le> MAX_QUESTION_LENGTH"
    by (simp add: lit_def MAX_QUESTION_LENGTH_def)
  show ?thesis
    using too_many_chunks_rejected [OF c l, of "envWith None" answeringFetch] q ql by blast
qed

text \<open>
  C2, as the code has it. A question of 1001 code units, sent with a valid chunk to a worker
  whose text-generation service answers, is not truncated: the request is rejected.
\<close>

theorem long_question_counterexample:
  "handleAsk (Inr (askRequest (replicate 1001 97) [chunkA])) (envWith None) answeringFetch
   = jsonResponse (ErrorBody (lit ''Question too long. Maximum is 1000 characters.'')) 400"
  by (simp add: handleAsk_def handleAskBody_def askRequest_def lit_def falsy_def isString_def
      the_str_def MAX_QUESTION_LENGTH_def)

text \<open>
  C2, amended. A request whose question is a string of more than \<open>MAX_QUESTION_LENGTH\<close>
  (1000) code units is answered with status 400; when its chunk array is not empty the body
  is the message that the question is too long.
\<close>

theorem long_question_rejected:
  assumes "getProp body (lit ''question'') = Some (JStr q)"
    and "MAX_QUESTION_LENGTH < length q"
  shows "status (handleAsk (Inr body) e fetch) = 400
         \<and> (\<forall>cs. getProp body (lit ''chunks'') = Some (JArr cs) \<and> cs \<noteq> [] \<longrightarrow>
                handleAsk (Inr body) e fetch =
                  jsonResponse
                    (ErrorBody (lit ''Question too long. Maximum is 1000 characters.'')) 400)"
proof -
  from assms(1) have nn: "body \<noteq> JNull" by (rule getProp_not_null)
  from assms(2) have ne: "q \<noteq> []" by auto
  show ?thesis
    using nn assms ne
    by (auto simp: handleAsk_def handleAskBody_def jsonResponse_def falsy_def isString_def
        the_str_def split: option.splits json.splits)
qed

theorem long_question_rejected_witness:
  "status (handleAsk (Inr (askRequest (replicate 1001 97) [chunkA])) (envWith None) answeringFetch)
   = 400"
proof -
  have q: "getProp (askRequest (replicate 1001 97) [chunkA]) (lit ''question'')
           = Some (JStr (replicate 1001 97))"
    by (simp add: askRequest_def lit_def)
  have l: "MAX_QUESTION_LENGTH < length (replicate 1001 (97 :: 16 word))"
    by (simp add: MAX_QUESTION_LENGTH_def)
  show ?thesis
    using long_question_rejected [OF q l, of "envWith None" answeringFetch] by blast
qed

section \<open>Rounding to the nearest double\<close>

text \<open>
  Facts about \<open>rne\<close>: it is odd and monotone at the powers of two (a power of two is a
  double, so a value on one side of it is rounded to the same side), its error is at most
  \<open>2 ^ - 53\<close> of the value plus \<open>2 ^ - 1075\<close>, and its results are multiples of \<open>2 ^ - 1074\<close>.
  The difference of two doubles has the sign of the exact difference, so the comparator of
  the reranker orders finite similarities as the real numbers they are.
\<close>

lemma round_even_le: "y \<le> of_int n \<Longrightarrow> round_even y \<le> n"
proof -
  assume a: "y \<le> of_int n"
  then have f: "\<lfloor>y\<rfloor> \<le> n" by (simp add: floor_le_iff)
  show ?thesis
  proof (cases "y - of_int \<lfloor>y\<rfloor> < 1 / 2")
    case True
    then show ?thesis using f by (simp add: round_even_def)
  next
    case False
    then have "of_int \<lfloor>y\<rfloor> < y" by linarith
    with a have "of_int \<lfloor>y\<rfloor> < (of_int n :: real)" by linarith
    then have "\<lfloor>y\<rfloor> < n" by simp
    then show ?thesis by (auto simp: round_even_def Let_def)
  qed
qed

lemma round_even_ge: "of_int n \<le> y \<Longrightarrow> n \<le> round_even y"
proof -
  assume "of_int n \<le> y"
  then have "n \<le> \<lfloor>y\<rfloor>" by (simp add: le_floor_iff)
  then show ?thesis by (auto simp: round_even_def Let_def)
qed

lemma round_even_err: "\<bar>of_int (round_even y) - y\<bar> \<le> 1 / 2"
proof -
  have "of_int \<lfloor>y\<rfloor> \<le> y" "y < of_int \<lfloor>y\<rfloor> + 1" by linarith+
  then show ?thesis by (auto simp: round_even_def Let_def)
qed

lemma scale_pos: "0 < subnormal_scale"
  by (simp add: subnormal_scale_def)

lemma round_even_nonneg: "0 \<le> y \<Longrightarrow> 0 \<le> round_even y"
  using round_even_ge [of 0 y] by simp

lemma shift_large:
  fixes y :: real
  assumes "0 \<le> y" and "0 < nat (bitlen \<lfloor>y\<rfloor> - 53)"
  shows "2 ^ (nat (bitlen \<lfloor>y\<rfloor> - 53) + 52) \<le> y"
proof -
  let ?N = "\<lfloor>y\<rfloor>"
  have b: "54 \<le> bitlen ?N" using assms(2) by simp
  have "0 < ?N"
  proof (rule ccontr)
    assume "\<not> 0 < ?N"
    then have "bitlen ?N = 0" by (simp add: bitlen_alt_def)
    with b show False by simp
  qed
  from bitlen_bounds [OF this] have "2 ^ nat (bitlen ?N - 1) \<le> ?N" by simp
  moreover have "nat (bitlen ?N - 1) = nat (bitlen ?N - 53) + 52" using b by simp
  ultimately have "(2::int) ^ (nat (bitlen ?N - 53) + 52) \<le> ?N" by simp
  then show ?thesis by (simp add: le_floor_iff)
qed

lemma rne_mag_nonneg: "0 \<le> z \<Longrightarrow> 0 \<le> rne_mag z"
proof -
  assume z: "0 \<le> z"
  have "0 \<le> z * subnormal_scale" using z scale_pos by simp
  then have "0 \<le> round_even (z * subnormal_scale / 2 ^ nat (bitlen \<lfloor>z * subnormal_scale\<rfloor> - 53))"
    by (intro round_even_nonneg) simp
  then show ?thesis using scale_pos by (simp add: rne_mag_def Let_def)
qed

lemma rne_mag_ge_grid:
  assumes z: "0 \<le> z" and g: "2 ^ k / subnormal_scale \<le> z"
  shows "2 ^ k / subnormal_scale \<le> rne_mag z"
proof -
  define y where "y = z * subnormal_scale"
  define sh where "sh = nat (bitlen \<lfloor>y\<rfloor> - 53)"
  have y0: "0 \<le> y" using z scale_pos by (simp add: y_def)
  have gy: "2 ^ k \<le> y" using g scale_pos by (simp add: y_def pos_divide_le_eq)
  have r: "rne_mag z = of_int (round_even (y / 2 ^ sh)) * 2 ^ sh / subnormal_scale"
    by (simp add: rne_mag_def Let_def y_def sh_def)
  have "(2::real) ^ k \<le> of_int (round_even (y / 2 ^ sh)) * 2 ^ sh"
  proof (cases "sh \<le> k")
    case True
    then have e: "(2::real) ^ k = 2 ^ (k - sh) * 2 ^ sh" by (simp flip: power_add)
    have "of_int (2 ^ (k - sh)) \<le> y / 2 ^ sh" using gy by (simp add: e pos_le_divide_eq)
    from round_even_ge [OF this] have "(2::int) ^ (k - sh) \<le> round_even (y / 2 ^ sh)" .
    then have "of_int ((2::int) ^ (k - sh)) \<le> (of_int (round_even (y / 2 ^ sh)) :: real)"
      by (simp only: of_int_le_iff)
    then have "(2::real) ^ (k - sh) * 2 ^ sh \<le> of_int (round_even (y / 2 ^ sh)) * 2 ^ sh"
      by (intro mult_right_mono) simp_all
    then show ?thesis by (simp only: e)
  next
    case False
    then have sp: "0 < sh" and ks: "k \<le> sh" by simp_all
    from shift_large [OF y0 sp [unfolded sh_def]] have "2 ^ (sh + 52) \<le> y" by (simp add: sh_def)
    then have "(2::real) ^ 52 * 2 ^ sh \<le> y" by (simp add: power_add mult.commute)
    then have "(2::real) ^ 52 \<le> y / 2 ^ sh" by (simp add: pos_le_divide_eq)
    moreover have "(1::real) \<le> 2 ^ 52" by simp
    ultimately have "1 \<le> y / 2 ^ sh" by linarith
    then have "of_int 1 \<le> y / 2 ^ sh" by (simp only: of_int_1)
    from round_even_ge [OF this] have "(1::real) \<le> of_int (round_even (y / 2 ^ sh))" by simp
    then have "1 * (2::real) ^ sh \<le> of_int (round_even (y / 2 ^ sh)) * 2 ^ sh"
      by (intro mult_right_mono) simp_all
    then have m: "(2::real) ^ sh \<le> of_int (round_even (y / 2 ^ sh)) * 2 ^ sh"
      by (simp only: mult_1)
    have "(2::real) ^ k \<le> 2 ^ sh" using ks by simp
    with m show ?thesis by linarith
  qed
  then show ?thesis using scale_pos by (simp add: r divide_right_mono)
qed

lemma rne_mag_le_grid:
  assumes z: "0 \<le> z" and g: "z \<le> 2 ^ k / subnormal_scale"
  shows "rne_mag z \<le> 2 ^ k / subnormal_scale"
proof -
  define y where "y = z * subnormal_scale"
  define sh where "sh = nat (bitlen \<lfloor>y\<rfloor> - 53)"
  have y0: "0 \<le> y" using z scale_pos by (simp add: y_def)
  have gy: "y \<le> 2 ^ k" using g scale_pos by (simp add: y_def pos_le_divide_eq)
  have r: "rne_mag z = of_int (round_even (y / 2 ^ sh)) * 2 ^ sh / subnormal_scale"
    by (simp add: rne_mag_def Let_def y_def sh_def)
  have "of_int (round_even (y / 2 ^ sh)) * 2 ^ sh \<le> (2::real) ^ k"
  proof (cases "sh \<le> k")
    case True
    then have e: "(2::real) ^ k = 2 ^ (k - sh) * 2 ^ sh" by (simp flip: power_add)
    have "y / 2 ^ sh \<le> of_int (2 ^ (k - sh))" using gy by (simp add: e pos_divide_le_eq)
    from round_even_le [OF this] have "round_even (y / 2 ^ sh) \<le> (2::int) ^ (k - sh)" .
    then have "(of_int (round_even (y / 2 ^ sh)) :: real) \<le> of_int ((2::int) ^ (k - sh))"
      by (simp only: of_int_le_iff)
    then have "of_int (round_even (y / 2 ^ sh)) * 2 ^ sh \<le> (2::real) ^ (k - sh) * 2 ^ sh"
      by (intro mult_right_mono) simp_all
    then show ?thesis by (simp only: e)
  next
    case False
    then have sp: "0 < sh" and ks: "k < sh" by simp_all
    from shift_large [OF y0 sp [unfolded sh_def]] have "2 ^ (sh + 52) \<le> y" by (simp add: sh_def)
    moreover have "(2::real) ^ k < 2 ^ (sh + 52)" using ks by simp
    ultimately have False using gy by linarith
    then show ?thesis ..
  qed
  then show ?thesis using scale_pos by (simp add: r divide_right_mono)
qed

lemma rne_mag_err:
  assumes z: "0 \<le> z"
  shows "\<bar>rne_mag z - z\<bar> \<le> z / 2 ^ 53 + 1 / (2 * subnormal_scale)"
proof -
  define y where "y = z * subnormal_scale"
  define sh where "sh = nat (bitlen \<lfloor>y\<rfloor> - 53)"
  define q where "q = (of_int (round_even (y / 2 ^ sh)) :: real)"
  have y0: "0 \<le> y" using z scale_pos by (simp add: y_def)
  have zy: "z = y / subnormal_scale" using scale_pos by (simp add: y_def)
  have r: "rne_mag z = q * 2 ^ sh / subnormal_scale"
    by (simp add: rne_mag_def Let_def y_def sh_def q_def)
  have "\<bar>q - y / 2 ^ sh\<bar> \<le> 1 / 2" unfolding q_def by (rule round_even_err)
  then have "\<bar>q - y / 2 ^ sh\<bar> * 2 ^ sh \<le> 1 / 2 * 2 ^ sh"
    by (intro mult_right_mono) simp_all
  moreover have "\<bar>q - y / 2 ^ sh\<bar> * 2 ^ sh = \<bar>q * 2 ^ sh - y\<bar>"
  proof -
    have "\<bar>q - y / 2 ^ sh\<bar> * 2 ^ sh = \<bar>(q - y / 2 ^ sh) * 2 ^ sh\<bar>"
      by (simp add: abs_mult)
    also have "(q - y / 2 ^ sh) * 2 ^ sh = q * 2 ^ sh - y" by (simp add: algebra_simps)
    finally show ?thesis .
  qed
  ultimately have e: "\<bar>q * 2 ^ sh - y\<bar> \<le> 2 ^ sh / 2" by simp
  have s: "(2::real) ^ sh / 2 \<le> y / 2 ^ 53 + 1 / 2"
  proof (cases "sh = 0")
    case True
    then show ?thesis using y0 by simp
  next
    case False
    then have sp: "0 < sh" by simp
    from shift_large [OF y0 sp [unfolded sh_def]] have "2 ^ (sh + 52) \<le> y" by (simp add: sh_def)
    then have "(2::real) ^ sh * 2 ^ 52 \<le> y" by (simp only: power_add)
    then have "(2::real) ^ sh \<le> y / 2 ^ 52" by (simp add: pos_le_divide_eq)
    then have "(2::real) ^ sh / 2 \<le> y / 2 ^ 52 / 2" by (rule divide_right_mono) simp
    then show ?thesis by simp
  qed
  have "rne_mag z - z = (q * 2 ^ sh - y) / subnormal_scale"
    by (simp only: r) (simp add: zy diff_divide_distrib)
  then have "\<bar>rne_mag z - z\<bar> = \<bar>q * 2 ^ sh - y\<bar> / subnormal_scale"
    using scale_pos by (simp add: abs_divide)
  also have "\<dots> \<le> (y / 2 ^ 53 + 1 / 2) / subnormal_scale"
    using e s scale_pos by (intro divide_right_mono) simp_all
  also have "\<dots> = z / 2 ^ 53 + 1 / (2 * subnormal_scale)"
    by (simp add: zy add_divide_distrib)
  finally show ?thesis .
qed

lemma rne_mag_grid: "\<exists>n :: int. rne_mag z * subnormal_scale = of_int n"
proof -
  define y where "y = z * subnormal_scale"
  define sh where "sh = nat (bitlen \<lfloor>y\<rfloor> - 53)"
  have "rne_mag z * subnormal_scale = of_int (round_even (y / 2 ^ sh) * 2 ^ sh)"
    using scale_pos by (simp add: rne_mag_def Let_def y_def sh_def)
  then show ?thesis ..
qed


lemma rne_0: "rne 0 = 0"
  by (simp add: rne_def rne_mag_def round_even_def bitlen_alt_def)

lemma rne_minus: "rne (- z) = - rne z"
proof -
  have "rne_mag 0 = 0" using rne_0 by (simp add: rne_def)
  then show ?thesis by (cases "z = 0") (auto simp: rne_def)
qed

lemma rne_abs: "\<bar>rne z\<bar> = rne_mag \<bar>z\<bar>"
  using rne_mag_nonneg [of z] rne_mag_nonneg [of "- z"] by (auto simp: rne_def)

lemma rne_nonneg: "0 \<le> z \<Longrightarrow> 0 \<le> rne z"
  using rne_mag_nonneg [of z] by (simp add: rne_def)

lemma rne_nonpos: "z \<le> 0 \<Longrightarrow> rne z \<le> 0"
  using rne_nonneg [of "- z"] by (simp add: rne_minus)

lemma rne_err: "\<bar>rne z - z\<bar> \<le> \<bar>z\<bar> / 2 ^ 53 + 1 / (2 * subnormal_scale)"
proof (cases "z < 0")
  case True
  then have "\<bar>rne z - z\<bar> = \<bar>rne_mag (- z) - (- z)\<bar>" by (simp add: rne_def)
  also have "\<dots> \<le> (- z) / 2 ^ 53 + 1 / (2 * subnormal_scale)"
    using True by (intro rne_mag_err) simp
  finally show ?thesis using True by simp
next
  case False
  then show ?thesis using rne_mag_err [of z] by (simp add: rne_def)
qed

lemma rne_abs_le_grid: "\<bar>z\<bar> \<le> 2 ^ k / subnormal_scale \<Longrightarrow> \<bar>rne z\<bar> \<le> 2 ^ k / subnormal_scale"
  unfolding rne_abs by (rule rne_mag_le_grid) simp_all

lemma rne_ge_grid: "2 ^ k / subnormal_scale \<le> z \<Longrightarrow> 2 ^ k / subnormal_scale \<le> rne z"
proof -
  assume a: "2 ^ k / subnormal_scale \<le> z"
  have "0 \<le> 2 ^ k / subnormal_scale" using scale_pos by simp
  with a have z: "0 \<le> z" by linarith
  then have "rne z = rne_mag z" by (simp add: rne_def)
  with rne_mag_ge_grid [OF z a] show ?thesis by simp
qed

lemma pow2_grid: "(2::real) ^ j = 2 ^ (j + 1074) / subnormal_scale"
  by (simp add: subnormal_scale_def power_add)

lemma inv_pow2_quotient: "j \<le> n \<Longrightarrow> 1 / (2::real) ^ j = 2 ^ (n - j) / 2 ^ n"
  by (simp add: power_diff)

lemma inv_pow2_grid: "j \<le> 1074 \<Longrightarrow> 1 / (2::real) ^ j = 2 ^ (1074 - j) / subnormal_scale"
  unfolding subnormal_scale_def by (rule inv_pow2_quotient)

lemma rne_abs_le_pow2: "\<bar>z\<bar> \<le> 2 ^ j \<Longrightarrow> \<bar>rne z\<bar> \<le> 2 ^ j"
  using rne_abs_le_grid [of z "j + 1074"] by (simp only: pow2_grid [symmetric])

lemma rne_ge_inv_pow2: "j \<le> 1074 \<Longrightarrow> 1 / 2 ^ j \<le> z \<Longrightarrow> 1 / 2 ^ j \<le> rne z"
  using rne_ge_grid [of "1074 - j" z] by (simp only: inv_pow2_grid [symmetric])

lemma rne_1: "rne 1 = 1"
proof -
  have "\<bar>rne 1\<bar> \<le> 2 ^ 0" by (rule rne_abs_le_pow2) simp
  moreover have "1 / 2 ^ 0 \<le> rne 1" by (rule rne_ge_inv_pow2) simp_all
  ultimately show ?thesis by simp
qed

lemma fl_Num: "\<bar>z\<bar> \<le> 2 ^ 1023 \<Longrightarrow> fl z = Num (rne z)"
proof -
  assume "\<bar>z\<bar> \<le> 2 ^ 1023"
  then have "\<bar>rne z\<bar> \<le> 2 ^ 1023" by (rule rne_abs_le_pow2)
  moreover have "(2::real) ^ 1023 < 2 ^ 1024" by (rule power_strict_increasing) simp_all
  ultimately show ?thesis by (simp add: fl_def overflow_threshold_def)
qed


lemma onGrid_iff: "onGrid x = (\<exists>n::int. x * subnormal_scale = of_int n)"
proof
  assume "onGrid x"
  then show "\<exists>n::int. x * subnormal_scale = of_int n" unfolding onGrid_def ..
next
  assume "\<exists>n::int. x * subnormal_scale = of_int n"
  then obtain n :: int where "x * subnormal_scale = of_int n" ..
  then show "onGrid x" by (simp add: onGrid_def)
qed

lemma onGrid_rne: "onGrid (rne z)"
proof (cases "z < 0")
  case True
  from rne_mag_grid [of "- z"] obtain n :: int where "rne_mag (- z) * subnormal_scale = of_int n" ..
  then have "rne z * subnormal_scale = of_int (- n)" using True by (simp add: rne_def)
  then show ?thesis unfolding onGrid_iff ..
next
  case False
  then show ?thesis using rne_mag_grid [of z] by (simp add: rne_def onGrid_iff)
qed

lemma onGrid_0: "onGrid 0"
  unfolding onGrid_iff by (rule exI [of _ 0]) simp

lemma onGrid_diff: "onGrid x \<Longrightarrow> onGrid y \<Longrightarrow> onGrid (y - x)"
proof -
  assume "onGrid x" and "onGrid y"
  then obtain n m :: int where "x * subnormal_scale = of_int n" "y * subnormal_scale = of_int m"
    unfolding onGrid_iff by blast
  then have "(y - x) * subnormal_scale = of_int (m - n)" by (simp add: algebra_simps)
  then show ?thesis unfolding onGrid_iff ..
qed

lemma rne_pos_iff:
  assumes "onGrid z"
  shows "(0 < rne z) = (0 < z)"
proof
  assume "0 < rne z"
  then show "0 < z" using rne_nonpos [of z] by (cases "0 < z") simp_all
next
  assume z: "0 < z"
  from assms obtain n :: int where n: "z * subnormal_scale = of_int n" unfolding onGrid_iff ..
  from z scale_pos have "0 < z * subnormal_scale" by simp
  with n have "0 < n" by simp
  then have "1 \<le> (of_int n :: real)" by simp
  with n have "1 \<le> z * subnormal_scale" by simp
  then have "2 ^ 0 / subnormal_scale \<le> z" using scale_pos by (simp add: pos_divide_le_eq)
  from rne_ge_grid [OF this] have "1 / subnormal_scale \<le> rne z" by simp
  moreover have "0 < 1 / subnormal_scale" using scale_pos by simp
  ultimately show "0 < rne z" by linarith
qed

lemma positive_fl: "onGrid z \<Longrightarrow> positive (fl z) = (0 < z)"
  by (simp add: fl_def rne_pos_iff)

lemma positive_jssub:
  "onGrid x \<Longrightarrow> onGrid y \<Longrightarrow> positive (jssub (Num y) (Num x)) = (x < y)"
  using positive_fl [OF onGrid_diff, of x y] by (simp add: jssub_def)

lemma rne_ge_pow2: "2 ^ j \<le> z \<Longrightarrow> 2 ^ j \<le> rne z"
  using rne_ge_grid [of "j + 1074" z] by (simp only: pow2_grid [symmetric])

lemma fl_overflow: "2 ^ 1024 \<le> z \<Longrightarrow> fl z = PosInf"
proof -
  assume z: "2 ^ 1024 \<le> z"
  then have "2 ^ 1024 \<le> rne z" by (rule rne_ge_pow2)
  moreover have "(0::real) < 2 ^ 1024" by simp
  ultimately have "overflow_threshold \<le> \<bar>rne z\<bar>" and "0 < z"
    using z unfolding overflow_threshold_def by linarith+
  then show ?thesis by (simp add: fl_def)
qed


section \<open>Sorting with the comparator of the reranker\<close>

lemma mset_js_insert: "mset (js_insert cmp x ys) = add_mset x (mset ys)"
  by (induction ys) simp_all

lemma mset_js_sort: "mset (js_sort cmp xs) = mset xs"
  by (induction xs) (simp_all add: js_sort_def mset_js_insert)

lemma set_js_insert: "set (js_insert cmp x ys) = insert x (set ys)"
  by (induction ys) auto

lemma cmp_positive:
  assumes "sim x = Num vx" "onGrid vx" "sim y = Num vy" "onGrid vy"
  shows "positive (jssub (sim y) (sim x)) = (vx < vy)"
  using assms by (simp add: positive_jssub)

lemma sorted_js_insert:
  assumes "sorted_wrt sim_ge ys" and "\<exists>v. sim x = Num v \<and> onGrid v"
    and "\<forall>y\<in>set ys. \<exists>v. sim y = Num v \<and> onGrid v"
  shows "sorted_wrt sim_ge (js_insert (\<lambda>a b. jssub (sim b) (sim a)) x ys)"
  using assms
proof (induction ys)
  case Nil
  then show ?case by simp
next
  case (Cons y ys)
  from Cons.prems obtain vx vy where vx: "sim x = Num vx" "onGrid vx" and vy: "sim y = Num vy" "onGrid vy"
    by auto
  have p: "positive (jssub (sim y) (sim x)) = (vx < vy)"
    by (rule cmp_positive [OF vx vy])
  show ?case
  proof (cases "vx < vy")
    case True
    have "sorted_wrt sim_ge (js_insert (\<lambda>a b. jssub (sim b) (sim a)) x ys)"
      using Cons by simp
    moreover have "sim_ge y x" using True vx vy by (simp add: sim_ge_def)
    ultimately show ?thesis using True p Cons.prems(1)
      by (auto simp: set_js_insert)
  next
    case False
    have xy: "sim_ge x y" using False vx vy by (simp add: sim_ge_def)
    have "\<forall>z\<in>set ys. sim_ge x z"
    proof
      fix z assume z: "z \<in> set ys"
      with Cons.prems(1) have "sim_ge y z" by simp
      with xy vx vy show "sim_ge x z" by (auto simp: sim_ge_def split: jsnum.splits)
    qed
    with xy False p Cons.prems(1) show ?thesis by simp
  qed
qed

lemma sorted_js_sort:
  assumes "\<forall>y\<in>set xs. \<exists>v. sim y = Num v \<and> onGrid v"
  shows "sorted_wrt sim_ge (js_sort (\<lambda>a b. jssub (sim b) (sim a)) xs)"
  using assms
proof (induction xs)
  case Nil
  then show ?case by (simp add: js_sort_def)
next
  case (Cons x xs)
  have "set (js_sort (\<lambda>a b. jssub (sim b) (sim a)) xs) = set xs"
    by (metis mset_js_sort set_mset_mset)
  with Cons show ?case
    using sorted_js_insert[of "js_sort (\<lambda>a b. jssub (sim b) (sim a)) xs" x]
    by (simp add: js_sort_def)
qed

lemma filter_js_insert:
  assumes "\<And>y. y \<in> set ys \<Longrightarrow> positive (cmp x y) \<Longrightarrow> \<not> (P x \<and> P y)"
  shows "filter P (js_insert cmp x ys) = filter P (x # ys)"
  using assms
proof (induction ys)
  case Nil
  then show ?case by simp
next
  case (Cons y ys)
  then have IH: "filter P (js_insert cmp x ys) = filter P (x # ys)" by simp
  show ?case
  proof (cases "positive (cmp x y)")
    case True
    with Cons.prems [of y] have "\<not> (P x \<and> P y)" by simp
    with True IH show ?thesis by auto
  next
    case False
    then show ?thesis by simp
  qed
qed

lemma stable_js_sort:
  assumes "\<forall>y\<in>set xs. \<exists>v. sim y = Num v \<and> onGrid v"
  shows "filter (\<lambda>r. sim r = s) (js_sort (\<lambda>a b. jssub (sim b) (sim a)) xs)
         = filter (\<lambda>r. sim r = s) xs"
  using assms
proof (induction xs)
  case Nil
  then show ?case by (simp add: js_sort_def)
next
  case (Cons x xs)
  let ?cmp = "\<lambda>a b. jssub (sim b) (sim a)"
  have st: "set (js_sort ?cmp xs) = set xs" by (metis mset_js_sort set_mset_mset)
  have "filter (\<lambda>r. sim r = s) (js_insert ?cmp x (js_sort ?cmp xs))
        = filter (\<lambda>r. sim r = s) (x # js_sort ?cmp xs)"
  proof (rule filter_js_insert)
    fix y assume y: "y \<in> set (js_sort ?cmp xs)" and p: "positive (jssub (sim y) (sim x))"
    from y st Cons.prems obtain vy where vy: "sim y = Num vy" "onGrid vy" by auto
    from Cons.prems obtain vx where vx: "sim x = Num vx" "onGrid vx" by auto
    from p cmp_positive [OF vx vy] have "vx < vy" by simp
    with vx vy show "\<not> (sim x = s \<and> sim y = s)" by auto
  qed
  with Cons show ?case by (simp add: js_sort_def)
qed

lemma head_sim:
  assumes sx: "sorted_wrt sim_ge (x # xs)" and sy: "sorted_wrt sim_ge (y # ys)"
    and f: "\<forall>s. filter (\<lambda>r. sim r = s) (x # xs) = filter (\<lambda>r. sim r = s) (y # ys)"
  shows "sim x = sim y"
proof -
  have "x \<in> set (filter (\<lambda>r. sim r = sim x) (x # xs))" by simp
  with f have "x \<in> set (filter (\<lambda>r. sim r = sim x) (y # ys))" by metis
  then have "x \<in> {r \<in> set (y # ys). sim r = sim x}" by (simp only: set_filter)
  then obtain y' where y': "y' \<in> set (y # ys)" "sim y' = sim x" by blast
  have "y \<in> set (filter (\<lambda>r. sim r = sim y) (y # ys))" by simp
  with f have "y \<in> set (filter (\<lambda>r. sim r = sim y) (x # xs))" by metis
  then have "y \<in> {r \<in> set (x # xs). sim r = sim y}" by (simp only: set_filter)
  then obtain x' where x': "x' \<in> set (x # xs)" "sim x' = sim y" by blast
  show ?thesis
  proof (cases "y' = y \<or> x' = x")
    case True
    with y' x' show ?thesis by auto
  next
    case False
    with y' x' have "y' \<in> set ys" "x' \<in> set xs" by auto
    with sx sy have "sim_ge y y'" "sim_ge x x'" by auto
    with y'(2) x'(2) show ?thesis by (auto simp: sim_ge_def split: jsnum.splits)
  qed
qed

lemma unique_stable_order:
  assumes "sorted_wrt sim_ge xs" and "sorted_wrt sim_ge ys"
    and "\<forall>s. filter (\<lambda>r. sim r = s) xs = filter (\<lambda>r. sim r = s) ys"
  shows "xs = ys"
  using assms
proof (induction xs arbitrary: ys)
  case Nil
  show ?case
  proof (cases ys)
    case Nil
    then show ?thesis by simp
  next
    case (Cons y ys')
    from Nil.prems(3) have "filter (\<lambda>r. sim r = sim y) [] = filter (\<lambda>r. sim r = sim y) (y # ys')"
      unfolding Cons by blast
    then show ?thesis by simp
  qed
next
  case (Cons x xs)
  show ?case
  proof (cases ys)
    case Nil
    from Cons.prems(3) have "filter (\<lambda>r. sim r = sim x) (x # xs) = filter (\<lambda>r. sim r = sim x) []"
      unfolding Nil by blast
    then show ?thesis by simp
  next
    case (Cons y ys')
    from head_sim [OF Cons.prems(1) Cons.prems(2) [unfolded Cons] Cons.prems(3) [unfolded Cons]]
    have k: "sim x = sim y" .
    from Cons.prems(3) have "filter (\<lambda>r. sim r = sim x) (x # xs) = filter (\<lambda>r. sim r = sim x) (y # ys')"
      unfolding Cons by blast
    with k have xy: "x = y" and t: "filter (\<lambda>r. sim r = sim x) xs = filter (\<lambda>r. sim r = sim x) ys'"
      by simp_all
    have "\<forall>s. filter (\<lambda>r. sim r = s) xs = filter (\<lambda>r. sim r = s) ys'"
    proof
      fix s
      from Cons.prems(3) have e: "filter (\<lambda>r. sim r = s) (x # xs) = filter (\<lambda>r. sim r = s) (y # ys')"
        unfolding Cons by blast
      show "filter (\<lambda>r. sim r = s) xs = filter (\<lambda>r. sim r = s) ys'"
      proof (cases "sim x = s")
        case True
        with t show ?thesis by simp
      next
        case False
        with e k show ?thesis by simp
      qed
    qed
    moreover have "sorted_wrt sim_ge xs" "sorted_wrt sim_ge ys'"
      using Cons.prems(1) Cons.prems(2) [unfolded Cons] by simp_all
    ultimately have "xs = ys'" by (rule Cons.IH [rotated 2])
    with xy Cons show ?thesis by simp
  qed
qed

section \<open>The batching loop\<close>

lemma batch_pos: "0 < EMBEDDING_BATCH_SIZE"
  by (simp add: EMBEDDING_BATCH_SIZE_def)

lemma slice_length: "length (slice xs i j) = min (j - i) (length xs - i)"
  by (simp add: slice_def)

lemma embedLoop_step:
  "i < length texts \<Longrightarrow>
   embedLoop run texts i acc =
     (case run (i div EMBEDDING_BATCH_SIZE) (slice texts i (i + EMBEDDING_BATCH_SIZE)) of
        AiThrows \<Rightarrow> Inl CollaboratorError
      | AiNoData \<Rightarrow> Inl TypeError
      | AiData d \<Rightarrow> embedLoop run texts (i + EMBEDDING_BATCH_SIZE) (acc @ d))"
  by (subst embedLoop.simps) simp

lemma embedLoop_done: "\<not> i < length texts \<Longrightarrow> embedLoop run texts i acc = Inr acc"
  by (subst embedLoop.simps) simp

text \<open>A batch call that throws, or returns nothing to spread, ends the loop in an exception.\<close>

lemma embedLoop_fails:
  assumes "EMBEDDING_BATCH_SIZE * k < length texts"
    and "run k (batchOf texts k) = AiThrows \<or> run k (batchOf texts k) = AiNoData"
    and "k0 \<le> k"
  shows "\<exists>err. embedLoop run texts (EMBEDDING_BATCH_SIZE * k0) acc = Inl err"
  using assms(3)
proof (induction "k - k0" arbitrary: k0 acc)
  case 0
  then have "k0 = k" by simp
  then show ?case using assms(1,2) batch_pos
    by (auto simp: embedLoop_step batchOf_def)
next
  case (Suc n)
  then have lt: "k0 < k" by simp
  then have "EMBEDDING_BATCH_SIZE * k0 \<le> EMBEDDING_BATCH_SIZE * k" by simp
  then have here: "EMBEDDING_BATCH_SIZE * k0 < length texts"
    using assms(1) by linarith
  have next_call:
    "\<exists>err. embedLoop run texts (EMBEDDING_BATCH_SIZE * k0 + EMBEDDING_BATCH_SIZE) (acc @ d) = Inl err"
    for d
    using Suc.hyps(1)[of "Suc k0" "acc @ d"] Suc.hyps(2) lt by (simp add: add.commute)
  show ?case
    using next_call batch_pos
    by (cases "run k0 (slice texts (EMBEDDING_BATCH_SIZE * k0)
                 (EMBEDDING_BATCH_SIZE * k0 + EMBEDDING_BATCH_SIZE))")
       (simp_all add: embedLoop_step[OF here])
qed

text \<open>
  With a collaborator that keeps its contract the loop returns one vector for every text:
  the vector at position \<open>j\<close> is the one at position \<open>j mod 100\<close> of the answer to batch
  \<open>j div 100\<close>.
\<close>

lemma embedLoop_contract:
  assumes "answersEveryText run"
  shows "\<exists>rest. embedLoop run texts (EMBEDDING_BATCH_SIZE * k) acc = Inr (acc @ rest)
           \<and> length rest = length texts - EMBEDDING_BATCH_SIZE * k
           \<and> (\<forall>j. EMBEDDING_BATCH_SIZE * k \<le> j \<and> j < length texts \<longrightarrow>
                 (\<exists>d. run (j div EMBEDDING_BATCH_SIZE)
                          (slice texts (EMBEDDING_BATCH_SIZE * (j div EMBEDDING_BATCH_SIZE))
                             (EMBEDDING_BATCH_SIZE * (j div EMBEDDING_BATCH_SIZE) + EMBEDDING_BATCH_SIZE))
                        = AiData d
                      \<and> length d = min EMBEDDING_BATCH_SIZE (length texts - EMBEDDING_BATCH_SIZE * (j div EMBEDDING_BATCH_SIZE))
                      \<and> rest ! (j - EMBEDDING_BATCH_SIZE * k) = d ! (j mod EMBEDDING_BATCH_SIZE)))"
proof (induction "length texts - EMBEDDING_BATCH_SIZE * k" arbitrary: k acc rule: less_induct)
  case less
  let ?B = EMBEDDING_BATCH_SIZE
  show ?case
  proof (cases "?B * k < length texts")
    case False
    then have none: "\<not> (?B * k \<le> j \<and> j < length texts)" for j by linarith
    have e: "embedLoop run texts (?B * k) acc = Inr (acc @ [])"
      using embedLoop_done[OF False] by simp
    have l: "length ([] :: real list list) = length texts - ?B * k" using False by simp
    show ?thesis
      by (rule exI[of _ "[]"]) (use e l none in blast)
  next
    case True
    let ?batch = "slice texts (?B * k) (?B * k + ?B)"
    have blen: "length ?batch = min ?B (length texts - ?B * k)"
      by (simp add: slice_length)
    with True batch_pos have "?batch \<noteq> []" "length ?batch \<le> ?B" by auto
    with assms obtain d where d: "run k ?batch = AiData d" "length d = length ?batch"
      unfolding answersEveryText_def by blast
    have smaller: "length texts - ?B * Suc k < length texts - ?B * k"
      using True batch_pos by simp
    from less[OF smaller, of "acc @ d"] obtain rest' where
      r1: "embedLoop run texts (?B * Suc k) (acc @ d) = Inr ((acc @ d) @ rest')" and
      r2: "length rest' = length texts - ?B * Suc k" and
      r3: "\<And>j. ?B * Suc k \<le> j \<Longrightarrow> j < length texts \<Longrightarrow>
                 (\<exists>d. run (j div ?B) (slice texts (?B * (j div ?B)) (?B * (j div ?B) + ?B)) = AiData d
                      \<and> length d = min ?B (length texts - ?B * (j div ?B))
                      \<and> rest' ! (j - ?B * Suc k) = d ! (j mod ?B))"
      by blast
    have e: "embedLoop run texts (?B * k) acc = Inr (acc @ (d @ rest'))"
      using r1 d(1) batch_pos by (simp add: embedLoop_step[OF True] add.commute)
    have l: "length (d @ rest') = length texts - ?B * k"
      using r2 d(2) blen True by auto
    have "\<exists>d'. run (j div ?B) (slice texts (?B * (j div ?B)) (?B * (j div ?B) + ?B)) = AiData d'
                      \<and> length d' = min ?B (length texts - ?B * (j div ?B))
                      \<and> (d @ rest') ! (j - ?B * k) = d' ! (j mod ?B)"
      if j: "?B * k \<le> j" "j < length texts" for j
    proof (cases "j < ?B * k + ?B")
      case True
      with j(1) batch_pos have jd: "j div ?B = k"
        by (metis add.commute div_nat_eqI mult_Suc_right)
      then have jm: "j mod ?B = j - ?B * k"
        by (metis minus_mult_div_eq_mod)
      have "j - ?B * k < length d" using d(2) blen True j by auto
      then show ?thesis using d blen jd jm by (simp add: nth_append)
    next
      case False
      then have j1: "?B * Suc k \<le> j" by simp
      from r3[OF j1 j(2)] obtain d' where
        d': "run (j div ?B) (slice texts (?B * (j div ?B)) (?B * (j div ?B) + ?B)) = AiData d'"
        "length d' = min ?B (length texts - ?B * (j div ?B))"
        "rest' ! (j - ?B * Suc k) = d' ! (j mod ?B)"
        by blast
      have ld: "length d = ?B" using d(2) blen False j(2) by auto
      have idx: "j - ?B * k = length d + (j - ?B * Suc k)"
        using ld j1 by simp
      have "(d @ rest') ! (j - ?B * k) = rest' ! (j - ?B * Suc k)"
        unfolding idx by (rule nth_append_length_plus)
      with d' show ?thesis by auto
    qed
    with e l show ?thesis by blast
  qed
qed

lemma embedLoop_one_batch:
  assumes "0 < length texts" and "length texts \<le> EMBEDDING_BATCH_SIZE"
    and "run 0 texts = AiData d"
  shows "embedLoop run texts 0 [] = Inr d"
proof -
  have s: "slice texts 0 EMBEDDING_BATCH_SIZE = texts"
    using assms(2) by (simp add: slice_def)
  have "embedLoop run texts 0 [] = embedLoop run texts EMBEDDING_BATCH_SIZE d"
    using assms(3) by (simp add: embedLoop_step[OF assms(1)] s)
  also have "\<dots> = Inr d"
    using assms(2) by (simp add: embedLoop_done)
  finally show ?thesis .
qed

section \<open>The similarity as the doubles compute it\<close>

text \<open>
  For two vectors of one length, at most 1024 components, each between \<open>-1\<close> and \<open>1\<close>,
  no operation of \<^verbatim>\<open>cosineSimilarity\<close> overflows. The three sums of the loop are the
  rounded running sums \<open>racc\<close>, each within a relative \<open>2 ^ - 41\<close> (and an absolute
  \<open>2 ^ - 180\<close>) of the exact sum; the divisor is within a relative \<open>2 ^ - 37\<close> of
  \<open>\<bar>a\<bar> * \<bar>b\<bar> + 10 ^ - 8\<close>; and by the Cauchy-Schwarz inequality the computed dot product
  does not exceed the computed divisor, so the rounded quotient lies between \<open>-1\<close> and \<open>1\<close>.
\<close>

lemma racc_snoc: "racc s (ps @ [p]) = rne (racc s ps + rne p)"
  by (induction ps arbitrary: s) simp_all

lemma eta_small: "1 / (2 * subnormal_scale) \<le> 1 / 2 ^ 200"
proof -
  have "(2::real) ^ 200 \<le> 2 ^ 1074" by (rule power_increasing) simp_all
  then have "(2::real) ^ 200 \<le> 2 * subnormal_scale" by (simp add: subnormal_scale_def)
  then show ?thesis by (simp add: frac_le)
qed

lemma eta_nonneg: "0 \<le> 1 / (2 * subnormal_scale)"
  using scale_pos by simp

lemma racc_err:
  assumes "2 * (real (length ps) + 1) \<le> 2 ^ 53"
  shows "\<bar>racc 0 ps - sum_list ps\<bar>
           \<le> 2 * (real (length ps) + 1) / 2 ^ 53 * (\<Sum>p\<leftarrow>ps. \<bar>p\<bar>)
               + 4 * real (length ps) * (1 / (2 * subnormal_scale))"
  using assms
proof (induction ps rule: rev_induct)
  case Nil
  then show ?case by simp
next
  case (snoc p ps)
  define u :: real where "u = 1 / 2 ^ 53"
  define h :: real where "h = 1 / (2 * subnormal_scale)"
  define n :: real where "n = real (length ps)"
  define T where "T = (\<Sum>p\<leftarrow>ps. \<bar>p\<bar>)"
  define S where "S = sum_list ps"
  define r where "r = racc 0 ps"
  define c where "c = 2 * (n + 1) * u"
  define q where "q = rne p"
  define z where "z = r + q"
  have u0: "0 \<le> u" and u1: "u \<le> 1" by (simp_all add: u_def)
  have h0: "0 \<le> h" unfolding h_def by (rule eta_nonneg)
  have n0: "0 \<le> n" by (simp add: n_def)
  have T0: "0 \<le> T" unfolding T_def by (rule sum_list_nonneg) auto
  have ST: "\<bar>S\<bar> \<le> T" unfolding S_def T_def by (rule sum_list_abs)
  from snoc.prems have "2 * (n + 2) \<le> 2 ^ 53" by (simp add: n_def)
  then have c2: "(2 * (n + 2)) * u \<le> 1" by (simp add: u_def)
  have cc: "c + 2 * u = (2 * (n + 2)) * u" by (simp add: c_def algebra_simps)
  have c1: "c \<le> 1" using c2 cc u0 by linarith
  have c0: "0 \<le> c" using n0 u0 by (simp add: c_def)
  have uc: "u \<le> c"
  proof -
    have "1 * u \<le> (2 * (n + 1)) * u" using n0 u0 by (intro mult_right_mono) simp_all
    then show ?thesis by (simp add: c_def)
  qed
  from snoc.prems have "2 * (real (length ps) + 1) \<le> 2 ^ 53" by simp
  from snoc.IH [OF this] have IH: "\<bar>r - S\<bar> \<le> c * T + 4 * n * h"
    by (simp add: r_def S_def T_def c_def n_def u_def h_def)
  have eq: "\<bar>q - p\<bar> \<le> u * \<bar>p\<bar> + h"
    using rne_err [of p] by (simp add: q_def u_def h_def)
  have ez: "\<bar>rne z - z\<bar> \<le> u * \<bar>z\<bar> + h"
    using rne_err [of z] by (simp add: u_def h_def)
  have zb: "\<bar>z\<bar> \<le> T + (c * T + 4 * n * h) + (\<bar>p\<bar> + u * \<bar>p\<bar> + h)"
    using IH ST eq unfolding z_def by linarith
  have "u * \<bar>z\<bar> \<le> u * (T + (c * T + 4 * n * h) + (\<bar>p\<bar> + u * \<bar>p\<bar> + h))"
    using zb u0 by (rule mult_left_mono)
  also have "\<dots> = u * T + u * c * T + 4 * (u * n) * h + u * \<bar>p\<bar> + u * u * \<bar>p\<bar> + u * h"
    by (simp add: algebra_simps)
  finally have uz: "u * \<bar>z\<bar> \<le> u * T + u * c * T + 4 * (u * n) * h + u * \<bar>p\<bar> + u * u * \<bar>p\<bar> + u * h" .
  have m1: "u * c * T \<le> u * T"
  proof -
    have "u * c \<le> u * 1" using c1 u0 by (rule mult_left_mono)
    then have "(u * c) * T \<le> (u * 1) * T" using T0 by (rule mult_right_mono)
    then show ?thesis by simp
  qed
  have m2: "u * u * \<bar>p\<bar> \<le> c * \<bar>p\<bar>"
  proof -
    have "u * u \<le> 1 * c" using u0 u1 uc c0 by (intro mult_mono) simp_all
    then have "(u * u) * \<bar>p\<bar> \<le> (1 * c) * \<bar>p\<bar>" by (rule mult_right_mono) simp
    then show ?thesis by simp
  qed
  have m3: "4 * (u * n) * h + u * h \<le> 2 * h"
  proof -
    have "4 * (u * n) + u \<le> 2 * c" using u0 n0 by (simp add: c_def algebra_simps)
    also have "\<dots> \<le> 2" using c1 by simp
    finally have "(4 * (u * n) + u) * h \<le> 2 * h" using h0 by (rule mult_right_mono)
    then show ?thesis by (simp add: algebra_simps)
  qed
  have "\<bar>rne z - (S + p)\<bar> \<le> \<bar>rne z - z\<bar> + \<bar>r - S\<bar> + \<bar>q - p\<bar>"
    unfolding z_def by linarith
  also have "\<dots> \<le> (u * \<bar>z\<bar> + h) + (c * T + 4 * n * h) + (u * \<bar>p\<bar> + h)"
    using ez IH eq by linarith
  also have "\<dots> \<le> (c * T + 2 * u * T) + (c * \<bar>p\<bar> + 2 * u * \<bar>p\<bar>) + (4 * n * h + 4 * h)"
    using uz m1 m2 m3 by linarith
  also have "\<dots> = (c + 2 * u) * (T + \<bar>p\<bar>) + 4 * (n + 1) * h"
    by (simp add: algebra_simps)
  finally have main: "\<bar>rne z - (S + p)\<bar> \<le> (c + 2 * u) * (T + \<bar>p\<bar>) + 4 * (n + 1) * h" .
  have f1: "racc 0 (ps @ [p]) = rne z" by (simp add: racc_snoc z_def r_def q_def)
  have f2: "sum_list (ps @ [p]) = S + p" by (simp add: S_def)
  have f3: "(\<Sum>x\<leftarrow>ps @ [p]. \<bar>x\<bar>) = T + \<bar>p\<bar>" by (simp add: T_def)
  have f4: "2 * (real (length (ps @ [p])) + 1) / 2 ^ 53 = c + 2 * u"
    by (simp add: c_def u_def n_def)
  have f5: "4 * real (length (ps @ [p])) = 4 * (n + 1)" by (simp add: n_def)
  show ?case unfolding f1 f2 f3 f4 f5 using main by (simp only: h_def)
qed


lemma racc_nonneg: "\<forall>p\<in>set ps. 0 \<le> p \<Longrightarrow> 0 \<le> s \<Longrightarrow> 0 \<le> racc s ps"
proof (induction ps arbitrary: s)
  case Nil
  then show ?case by simp
next
  case (Cons p ps)
  then have "0 \<le> rne (s + rne p)" by (intro rne_nonneg add_nonneg_nonneg) simp_all
  with Cons show ?case by simp
qed

lemma racc_zeros: "\<forall>p\<in>set ps. p = 0 \<Longrightarrow> racc 0 ps = 0"
  by (induction ps) (simp_all add: rne_0)

lemma le_huge: "z \<le> 2 ^ 13 \<Longrightarrow> z \<le> (2::real) ^ 1023"
proof -
  assume "z \<le> 2 ^ 13"
  moreover have "(2::real) ^ 13 \<le> 2 ^ 1023" by (rule power_increasing) simp_all
  ultimately show ?thesis by (rule order_trans)
qed

lemma sum_list_abs_le_length:
  "\<forall>p\<in>set ps. \<bar>p\<bar> \<le> 1 \<Longrightarrow> (\<Sum>p\<leftarrow>ps. \<bar>p\<bar>) \<le> real (length ps)" for ps :: "real list"
  by (induction ps) auto

lemma racc_err_1024:
  assumes l: "length ps \<le> 1024"
  shows "\<bar>racc 0 ps - sum_list ps\<bar> \<le> (\<Sum>p\<leftarrow>ps. \<bar>p\<bar>) / 2 ^ 41 + 1 / 2 ^ 180"
proof -
  define T where "T = (\<Sum>p\<leftarrow>ps. \<bar>p\<bar>)"
  define n where "n = real (length ps)"
  define h :: real where "h = 1 / (2 * subnormal_scale)"
  have T0: "0 \<le> T" unfolding T_def by (rule sum_list_nonneg) auto
  have n1: "n \<le> 1024" and n0: "0 \<le> n" using l by (simp_all add: n_def)
  have h0: "0 \<le> h" unfolding h_def by (rule eta_nonneg)
  have h1: "h \<le> 1 / 2 ^ 200" unfolding h_def by (rule eta_small)
  have "2 * (real (length ps) + 1) \<le> 2 ^ 53" using n1 by (simp add: n_def)
  from racc_err [OF this]
  have e: "\<bar>racc 0 ps - sum_list ps\<bar> \<le> 2 * (n + 1) / 2 ^ 53 * T + 4 * n * h"
    by (simp only: T_def n_def h_def)
  have "2 * (n + 1) / 2 ^ 53 \<le> 1 / 2 ^ 41" using n1 by simp
  then have a: "2 * (n + 1) / 2 ^ 53 * T \<le> 1 / 2 ^ 41 * T" using T0 by (rule mult_right_mono)
  have "4 * n * h \<le> 4096 * h" using n1 h0 by (intro mult_right_mono) simp_all
  also have "\<dots> \<le> 4096 * (1 / 2 ^ 200)" using h1 by (intro mult_left_mono) simp_all
  also have "\<dots> \<le> 1 / 2 ^ 180" by simp
  finally have b: "4 * n * h \<le> 1 / 2 ^ 180" .
  from a have a2: "2 * (n + 1) / 2 ^ 53 * T \<le> T / 2 ^ 41" by simp
  from e a2 b have "\<bar>racc 0 ps - sum_list ps\<bar> \<le> T / 2 ^ 41 + 1 / 2 ^ 180" by linarith
  then show ?thesis by (simp only: T_def)
qed

lemma racc_bound:
  assumes l: "length ps \<le> 1024" and b: "\<forall>p\<in>set ps. \<bar>p\<bar> \<le> 1"
  shows "\<bar>racc 0 ps\<bar> \<le> 2049"
proof -
  define T where "T = (\<Sum>p\<leftarrow>ps. \<bar>p\<bar>)"
  have T0: "0 \<le> T" unfolding T_def by (rule sum_list_nonneg) auto
  have "T \<le> real (length ps)" unfolding T_def by (rule sum_list_abs_le_length [OF b])
  with l have T1: "T \<le> 1024" by simp
  have S: "\<bar>sum_list ps\<bar> \<le> T" unfolding T_def by (rule sum_list_abs)
  from racc_err_1024 [OF l] have "\<bar>racc 0 ps - sum_list ps\<bar> \<le> T / 2 ^ 41 + 1 / 2 ^ 180"
    by (simp only: T_def)
  moreover have "T / 2 ^ 41 \<le> T" using T0 by (simp add: field_simps)
  moreover have "(1::real) / 2 ^ 180 \<le> 1" by simp
  ultimately show ?thesis using S T1 by linarith
qed

lemma acc_step:
  assumes l: "length ps \<le> 1024" and b: "\<forall>p\<in>set ps. \<bar>p\<bar> \<le> 1" and i: "i < length ps"
  shows "jsadd (Num (racc 0 (take i ps))) (fl (ps ! i)) = Num (racc 0 (take (Suc i) ps))"
proof -
  have p1: "\<bar>ps ! i\<bar> \<le> 1" using b i by simp
  then have "\<bar>ps ! i\<bar> \<le> 2 ^ 13" by simp
  then have f: "fl (ps ! i) = Num (rne (ps ! i))" by (intro fl_Num le_huge)
  have q1: "\<bar>rne (ps ! i)\<bar> \<le> 1" using rne_abs_le_pow2 [of "ps ! i" 0] p1 by simp
  have "\<bar>racc 0 (take i ps)\<bar> \<le> 2049"
    using l b by (intro racc_bound) (auto dest: in_set_takeD)
  with q1 have "\<bar>racc 0 (take i ps) + rne (ps ! i)\<bar> \<le> 2 ^ 13" by simp
  then have g: "fl (racc 0 (take i ps) + rne (ps ! i)) = Num (rne (racc 0 (take i ps) + rne (ps ! i)))"
    by (intro fl_Num le_huge)
  have "racc 0 (take (Suc i) ps) = rne (racc 0 (take i ps) + rne (ps ! i))"
    using i by (simp add: take_Suc_conv_app_nth racc_snoc)
  with f g show ?thesis by simp
qed

lemma cosineLoop_racc_from:
  assumes ab: "length a = length b" and l: "length a \<le> 1024"
    and ba: "\<forall>x\<in>set a. \<bar>x\<bar> \<le> 1" and bb: "\<forall>x\<in>set b. \<bar>x\<bar> \<le> 1"
    and i: "i \<le> length a"
  shows "cosineLoop a b i
           (Num (racc 0 (take i (map2 (*) a b))),
            Num (racc 0 (take i (map (\<lambda>x. x * x) a))),
            Num (racc 0 (take i (map (\<lambda>x. x * x) b))))
         = (Num (racc 0 (map2 (*) a b)),
            Num (racc 0 (map (\<lambda>x. x * x) a)),
            Num (racc 0 (map (\<lambda>x. x * x) b)))"
  using i
proof (induction "length a - i" arbitrary: i)
  case 0
  then have "i = length a" by simp
  then show ?case using ab by (subst cosineLoop.simps) simp
next
  case (Suc k)
  then have lt: "i < length a" and k: "k = length a - Suc i" and le: "Suc i \<le> length a" by auto
  let ?P = "map2 (*) a b" and ?A = "map (\<lambda>x. x * x) a" and ?B = "map (\<lambda>x. x * x) b"
  have sq: "\<bar>x * y\<bar> \<le> 1" if "\<bar>x\<bar> \<le> 1" "\<bar>y\<bar> \<le> 1" for x y :: real
    using that by (simp add: abs_mult mult_le_one)
  have bP: "\<forall>p\<in>set ?P. \<bar>p\<bar> \<le> 1"
  proof
    fix p assume "p \<in> set ?P"
    then obtain x y where xy: "(x, y) \<in> set (zip a b)" and p: "p = x * y" by auto
    from xy have "x \<in> set a" and "y \<in> set b"
      by (auto dest: set_zip_leftD set_zip_rightD)
    with ba bb p show "\<bar>p\<bar> \<le> 1" by (simp add: sq)
  qed
  have bA: "\<forall>p\<in>set ?A. \<bar>p\<bar> \<le> 1"
  proof
    fix p assume "p \<in> set ?A"
    then obtain x where x: "x \<in> set a" and p: "p = x * x" by auto
    from x ba have "\<bar>x\<bar> \<le> 1" by blast
    from sq [OF this this] show "\<bar>p\<bar> \<le> 1" by (simp only: p)
  qed
  have bB: "\<forall>p\<in>set ?B. \<bar>p\<bar> \<le> 1"
  proof
    fix p assume "p \<in> set ?B"
    then obtain x where x: "x \<in> set b" and p: "p = x * x" by auto
    from x bb have "\<bar>x\<bar> \<le> 1" by blast
    from sq [OF this this] show "\<bar>p\<bar> \<le> 1" by (simp only: p)
  qed
  have s1: "jsadd (Num (racc 0 (take i ?P))) (fl (a ! i * b ! i)) = Num (racc 0 (take (Suc i) ?P))"
    using acc_step [of ?P i] l ab lt bP by simp
  have s2: "jsadd (Num (racc 0 (take i ?A))) (fl (a ! i * a ! i)) = Num (racc 0 (take (Suc i) ?A))"
    using acc_step [of ?A i] l lt bA by simp
  have s3: "jsadd (Num (racc 0 (take i ?B))) (fl (b ! i * b ! i)) = Num (racc 0 (take (Suc i) ?B))"
    using acc_step [of ?B i] l ab lt bB by simp
  show ?case
    by (subst cosineLoop.simps)
       (use lt ab s1 s2 s3 Suc.hyps(1) [OF k le] in \<open>simp add: elem_def del: take_map\<close>)
qed

lemma cosineLoop_racc:
  assumes "length a = length b" and "length a \<le> 1024"
    and "\<forall>x\<in>set a. \<bar>x\<bar> \<le> 1" and "\<forall>x\<in>set b. \<bar>x\<bar> \<le> 1"
  shows "cosineLoop a b 0 (Num 0, Num 0, Num 0)
         = (Num (racc 0 (map2 (*) a b)),
            Num (racc 0 (map (\<lambda>x. x * x) a)),
            Num (racc 0 (map (\<lambda>x. x * x) b)))"
  using cosineLoop_racc_from [OF assms, of 0] by simp


lemma rne_lo: "0 \<le> z \<Longrightarrow> z - z / 2 ^ 53 - 1 / 2 ^ 200 \<le> rne z"
  using rne_err [of z] eta_small by (simp add: abs_le_iff)

lemma rne_hi: "0 \<le> z \<Longrightarrow> rne z \<le> z + z / 2 ^ 53 + 1 / 2 ^ 200"
  using rne_err [of z] eta_small by (simp add: abs_le_iff)

lemma sqrt_lower:
  assumes "0 \<le> x" and "0 \<le> t" and "s - t \<le> x"
  shows "sqrt s - sqrt t \<le> sqrt x"
proof -
  from assms(3) have "s \<le> x + t" by simp
  then have "sqrt s \<le> sqrt (x + t)" by simp
  also have "\<dots> \<le> sqrt x + sqrt t" using assms(1,2) by (rule sqrt_add_le_add_sqrt)
  finally show ?thesis by simp
qed

lemma sqrt_tiny: "sqrt (1 / 2 ^ 180) = 1 / 2 ^ 90"
  by (rule real_sqrt_unique) (simp_all add: power2_eq_square)

lemma root_bounds:
  assumes X: "0 \<le> X" "X \<le> 1024" and x: "0 \<le> x"
    and e: "\<bar>x - X\<bar> \<le> X / 2 ^ 41 + 1 / 2 ^ 180"
  shows "(1 - 1 / 2 ^ 40) * sqrt X - 1 / 2 ^ 89 \<le> rne (sqrt x)"
    and "rne (sqrt x) \<le> (1 + 1 / 2 ^ 40) * sqrt X + 1 / 2 ^ 89"
proof -
  define A where "A = sqrt X"
  define r where "r = sqrt x"
  have A0: "0 \<le> A" using X by (simp add: A_def)
  have r0: "0 \<le> r" using x by (simp add: r_def)
  have lo: "(1 - 1 / 2 ^ 41) * A - 1 / 2 ^ 90 \<le> r"
  proof -
    have "(1 - 1 / 2 ^ 41) * X - 1 / 2 ^ 180 \<le> x" using e by (simp add: abs_le_iff algebra_simps)
    from sqrt_lower [OF x _ this]
    have "sqrt ((1 - 1 / 2 ^ 41) * X) - sqrt (1 / 2 ^ 180) \<le> r" by (simp add: r_def)
    then have 1: "sqrt (1 - 1 / 2 ^ 41) * A - 1 / 2 ^ 90 \<le> r"
      by (simp only: real_sqrt_mult sqrt_tiny A_def)
    have "(1 - 1 / 2 ^ 41 :: real) \<le> sqrt (1 - 1 / 2 ^ 41)"
      by (rule real_le_rsqrt) (simp add: power2_eq_square)
    then have "(1 - 1 / 2 ^ 41) * A \<le> sqrt (1 - 1 / 2 ^ 41) * A" using A0 by (rule mult_right_mono)
    with 1 show ?thesis by linarith
  qed
  have hi: "r \<le> (1 + 1 / 2 ^ 41) * A + 1 / 2 ^ 90"
  proof -
    have "x \<le> (1 + 1 / 2 ^ 41) * X + 1 / 2 ^ 180" using e by (simp add: abs_le_iff algebra_simps)
    then have "r \<le> sqrt ((1 + 1 / 2 ^ 41) * X + 1 / 2 ^ 180)" by (simp add: r_def)
    also have "\<dots> \<le> sqrt ((1 + 1 / 2 ^ 41) * X) + sqrt (1 / 2 ^ 180)"
      using X by (intro sqrt_add_le_add_sqrt) simp_all
    also have "\<dots> = sqrt (1 + 1 / 2 ^ 41) * A + 1 / 2 ^ 90"
      by (simp only: real_sqrt_mult sqrt_tiny A_def)
    finally have 1: "r \<le> sqrt (1 + 1 / 2 ^ 41) * A + 1 / 2 ^ 90" .
    have "sqrt (1 + 1 / 2 ^ 41) \<le> (1 + 1 / 2 ^ 41 :: real)"
      by (rule real_le_lsqrt) (simp_all add: power2_eq_square)
    then have "sqrt (1 + 1 / 2 ^ 41) * A \<le> (1 + 1 / 2 ^ 41) * A" using A0 by (rule mult_right_mono)
    with 1 show ?thesis by linarith
  qed
  from rne_lo [OF r0] lo A0 show "(1 - 1 / 2 ^ 40) * sqrt X - 1 / 2 ^ 89 \<le> rne (sqrt x)"
    unfolding A_def [symmetric] r_def [symmetric] by (simp add: algebra_simps)
  from rne_hi [OF r0] hi A0 show "rne (sqrt x) \<le> (1 + 1 / 2 ^ 40) * sqrt X + 1 / 2 ^ 89"
    unfolding A_def [symmetric] r_def [symmetric] by (simp add: algebra_simps)
qed


lemma product_lower:
  fixes s t :: real
  assumes "0 \<le> \<alpha>" "0 \<le> \<beta>" "0 \<le> \<delta>" "\<alpha> - \<delta> \<le> s" "0 \<le> s" "\<beta> - \<delta> \<le> t" "0 \<le> t"
  shows "\<alpha> * \<beta> - \<delta> * (\<alpha> + \<beta>) \<le> s * t"
proof (cases "\<delta> \<le> \<alpha> \<and> \<delta> \<le> \<beta>")
  case True
  then have "(\<alpha> - \<delta>) * (\<beta> - \<delta>) \<le> s * t" using assms by (intro mult_mono) simp_all
  moreover have "(\<alpha> - \<delta>) * (\<beta> - \<delta>) = \<alpha> * \<beta> - \<delta> * (\<alpha> + \<beta>) + \<delta> * \<delta>"
    by (simp add: algebra_simps)
  moreover have "0 \<le> \<delta> * \<delta>" by simp
  ultimately show ?thesis by linarith
next
  case False
  have st: "0 \<le> s * t" using assms by simp
  from False consider "\<alpha> < \<delta>" | "\<beta> < \<delta>" by linarith
  then have "\<alpha> * \<beta> - \<delta> * (\<alpha> + \<beta>) \<le> 0"
  proof cases
    case 1
    then have "\<beta> * (\<alpha> - \<delta>) \<le> 0" using assms by (simp add: mult_nonneg_nonpos)
    moreover have "0 \<le> \<delta> * \<alpha>" using assms by simp
    moreover have "\<alpha> * \<beta> - \<delta> * (\<alpha> + \<beta>) = \<beta> * (\<alpha> - \<delta>) - \<delta> * \<alpha>"
      by (simp add: algebra_simps)
    ultimately show ?thesis by linarith
  next
    case 2
    then have "\<alpha> * (\<beta> - \<delta>) \<le> 0" using assms by (simp add: mult_nonneg_nonpos)
    moreover have "0 \<le> \<delta> * \<beta>" using assms by simp
    moreover have "\<alpha> * \<beta> - \<delta> * (\<alpha> + \<beta>) = \<alpha> * (\<beta> - \<delta>) - \<delta> * \<beta>"
      by (simp add: algebra_simps)
    ultimately show ?thesis by linarith
  qed
  with st show ?thesis by linarith
qed

lemma divisor_bounds:
  assumes A: "0 \<le> A" "A \<le> 32" and B: "0 \<le> B" "B \<le> 32"
    and sx: "0 \<le> sx" "(1 - 1 / 2 ^ 40) * A - 1 / 2 ^ 89 \<le> sx" "sx \<le> (1 + 1 / 2 ^ 40) * A + 1 / 2 ^ 89"
    and sy: "0 \<le> sy" "(1 - 1 / 2 ^ 40) * B - 1 / 2 ^ 89 \<le> sy" "sy \<le> (1 + 1 / 2 ^ 40) * B + 1 / 2 ^ 89"
  shows "(1 - 1 / 2 ^ 37) * (A * B + 1 / 10 ^ 8) - 1 / 2 ^ 81 \<le> rne (rne (sx * sy) + rne (1 / 10 ^ 8))"
    and "rne (rne (sx * sy) + rne (1 / 10 ^ 8)) \<le> (1 + 1 / 2 ^ 37) * (A * B + 1 / 10 ^ 8) + 1 / 2 ^ 81"
proof -
  define M where "M = A * B"
  define f :: real where "f = 1 - 1 / 2 ^ 40"
  define g :: real where "g = 1 + 1 / 2 ^ 40"
  define t :: real where "t = 1 / 2 ^ 89"
  define p where "p = sx * sy"
  define m where "m = rne p"
  define e where "e = rne (1 / 10 ^ 8)"
  define D where "D = rne (m + e)"
  have M0: "0 \<le> M" using A B by (simp add: M_def)
  have f0: "0 \<le> f" and f1: "f \<le> 1" and g0: "0 \<le> g" and g2: "g \<le> 2" and t0: "0 \<le> t" and t1: "t \<le> 1"
    by (simp_all add: f_def g_def t_def)
  have fA: "0 \<le> f * A" "f * A \<le> 32"
  proof -
    show "0 \<le> f * A" using f0 A by simp
    have "f * A \<le> 1 * 32" using f0 f1 A by (intro mult_mono) simp_all
    then show "f * A \<le> 32" by simp
  qed
  have fB: "0 \<le> f * B" "f * B \<le> 32"
  proof -
    show "0 \<le> f * B" using f0 B by simp
    have "f * B \<le> 1 * 32" using f0 f1 B by (intro mult_mono) simp_all
    then show "f * B \<le> 32" by simp
  qed
  have pl: "(1 - 1 / 2 ^ 39) * M - 64 * t \<le> p"
  proof -
    have "f * A * (f * B) - t * (f * A + f * B) \<le> sx * sy"
      using fA(1) fB(1) t0 sx(1,2) sy(1,2) by (intro product_lower) (simp_all add: f_def t_def)
    moreover have "f * A * (f * B) = (f * f) * M" by (simp add: M_def algebra_simps)
    moreover have "(1 - 1 / 2 ^ 39) * M \<le> (f * f) * M"
      using M0 by (intro mult_right_mono) (simp_all add: f_def)
    moreover have "t * (f * A + f * B) \<le> t * 64"
      using fA(2) fB(2) t0 by (intro mult_left_mono) simp_all
    ultimately show ?thesis by (simp add: p_def)
  qed
  have pu: "p \<le> (1 + 1 / 2 ^ 38) * M + 129 * t"
  proof -
    have gA: "0 \<le> g * A" "g * A \<le> 64"
    proof -
      show "0 \<le> g * A" using g0 A by simp
      have "g * A \<le> 2 * 32" using g0 g2 A by (intro mult_mono) simp_all
      then show "g * A \<le> 64" by simp
    qed
    have gB: "0 \<le> g * B" "g * B \<le> 64"
    proof -
      show "0 \<le> g * B" using g0 B by simp
      have "g * B \<le> 2 * 32" using g0 g2 B by (intro mult_mono) simp_all
      then show "g * B \<le> 64" by simp
    qed
    have "sx * sy \<le> (g * A + t) * (g * B + t)"
      using sx sy gB(1) t0 by (intro mult_mono) (simp_all add: g_def t_def)
    moreover have "(g * A + t) * (g * B + t) = (g * g) * M + t * (g * A + g * B) + t * t"
      by (simp add: M_def algebra_simps)
    moreover have "(g * g) * M \<le> (1 + 1 / 2 ^ 38) * M"
      using M0 by (intro mult_right_mono) (simp_all add: g_def)
    moreover have "t * (g * A + g * B) \<le> t * 128"
      using gA(2) gB(2) t0 by (intro mult_left_mono) simp_all
    moreover have "t * t \<le> t * 1" using t0 t1 by (intro mult_left_mono) simp_all
    ultimately show ?thesis unfolding p_def by linarith
  qed
  have p0: "0 \<le> p" using sx(1) sy(1) by (simp add: p_def)
  have m0: "0 \<le> m" unfolding m_def using p0 by (rule rne_nonneg)
  have e0: "0 \<le> e" unfolding e_def by (rule rne_nonneg) simp
  have ml: "p - p / 2 ^ 53 - 1 / 2 ^ 200 \<le> m" unfolding m_def using p0 by (rule rne_lo)
  have mu: "m \<le> p + p / 2 ^ 53 + 1 / 2 ^ 200" unfolding m_def using p0 by (rule rne_hi)
  have el: "1 / 10 ^ 8 - 1 / 10 ^ 8 / 2 ^ 53 - 1 / 2 ^ 200 \<le> e"
    unfolding e_def by (rule rne_lo) simp
  have eu: "e \<le> 1 / 10 ^ 8 + 1 / 10 ^ 8 / 2 ^ 53 + 1 / 2 ^ 200"
    unfolding e_def by (rule rne_hi) simp
  define W where "W = m + e"
  have W0: "0 \<le> W" using m0 e0 by (simp add: W_def)
  have Dl: "W - W / 2 ^ 53 - 1 / 2 ^ 200 \<le> D" unfolding D_def W_def [symmetric] using W0 by (rule rne_lo)
  have Du: "D \<le> W + W / 2 ^ 53 + 1 / 2 ^ 200" unfolding D_def W_def [symmetric] using W0 by (rule rne_hi)
  have l1: "(1 - 1 / 2 ^ 38) * M - 1 / 2 ^ 82 \<le> m"
    using pl ml M0 p0 unfolding t_def by (simp add: algebra_simps)
  have l2: "(1 - 1 / 2 ^ 38) * (M + 1 / 10 ^ 8) - 1 / 2 ^ 82 \<le> W"
    using l1 el unfolding W_def by (simp add: algebra_simps)
  have "(1 - 1 / 2 ^ 37) * (M + 1 / 10 ^ 8) - 1 / 2 ^ 81 \<le> D"
    using l2 Dl M0 by (simp add: algebra_simps)
  then show "(1 - 1 / 2 ^ 37) * (A * B + 1 / 10 ^ 8) - 1 / 2 ^ 81 \<le> rne (rne (sx * sy) + rne (1 / 10 ^ 8))"
    by (simp only: D_def m_def e_def p_def M_def)
  have u1: "m \<le> (1 + 3 / 2 ^ 39) * M + 3 / 2 ^ 83"
    using pu mu M0 p0 unfolding t_def by (simp add: algebra_simps)
  have u2: "W \<le> (1 + 3 / 2 ^ 39) * M + (1 + 3 / 2 ^ 39) * (1 / 10 ^ 8) + 7 / 2 ^ 84"
    using u1 eu unfolding W_def by (simp add: algebra_simps)
  have "D \<le> (1 + 1 / 2 ^ 37) * M + (1 + 1 / 2 ^ 37) * (1 / 10 ^ 8) + 1 / 2 ^ 81"
    using u2 Du M0 W0 by (simp add: algebra_simps)
  then have "D \<le> (1 + 1 / 2 ^ 37) * (M + 1 / 10 ^ 8) + 1 / 2 ^ 81"
    by (simp only: distrib_left)
  then show "rne (rne (sx * sy) + rne (1 / 10 ^ 8)) \<le> (1 + 1 / 2 ^ 37) * (A * B + 1 / 10 ^ 8) + 1 / 2 ^ 81"
    by (simp only: D_def m_def e_def p_def M_def)
qed


lemma two_dim_cauchy_schwarz:
  "(s * t + p * q)\<^sup>2 \<le> (s\<^sup>2 + p\<^sup>2) * (t\<^sup>2 + q\<^sup>2)" for s t p q :: real
proof -
  have "(s\<^sup>2 + p\<^sup>2) * (t\<^sup>2 + q\<^sup>2) - (s * t + p * q)\<^sup>2 = (s * q - t * p)\<^sup>2"
    by (simp add: power2_eq_square algebra_simps)
  moreover have "0 \<le> (s * q - t * p)\<^sup>2" by simp
  ultimately show ?thesis by linarith
qed

lemma dotp_self: "dotp a a = (\<Sum>x\<leftarrow>a. x * x)"
  by (simp add: dotp_def zip_same_conv_map comp_def)

lemma dotp_self_nonneg: "0 \<le> dotp a a"
  unfolding dotp_self by (rule sum_list_nonneg) auto

lemma cauchy_schwarz_list:
  "length a = length b \<Longrightarrow>
   (\<Sum>(x, y)\<leftarrow>zip a b. \<bar>x * y\<bar>) \<le> sqrt (\<Sum>x\<leftarrow>a. x * x) * sqrt (\<Sum>y\<leftarrow>b. y * y)"
proof (induction a b rule: list_induct2)
  case Nil
  then show ?case by simp
next
  case (Cons x xs y ys)
  let ?D = "\<Sum>(x, y)\<leftarrow>zip xs ys. \<bar>x * y\<bar>" and ?X = "\<Sum>x\<leftarrow>xs. x * x" and ?Y = "\<Sum>y\<leftarrow>ys. y * y"
  have X: "0 \<le> ?X" and Y: "0 \<le> ?Y" by (rule sum_list_nonneg, auto)+
  let ?s = "sqrt ?X" and ?t = "sqrt ?Y"
  have "\<bar>x * y\<bar> + ?D \<le> ?s * ?t + \<bar>x\<bar> * \<bar>y\<bar>"
    using Cons.IH by (simp add: abs_mult)
  also have "\<dots> \<le> sqrt ((?s\<^sup>2 + \<bar>x\<bar>\<^sup>2) * (?t\<^sup>2 + \<bar>y\<bar>\<^sup>2))"
    by (rule real_le_rsqrt) (rule two_dim_cauchy_schwarz)
  also have "\<dots> = sqrt (x * x + ?X) * sqrt (y * y + ?Y)"
    using X Y by (simp add: real_sqrt_mult power2_eq_square add.commute)
  finally show ?case by simp
qed

lemma sum_list_le_length:
  "\<forall>p\<in>set ps. \<bar>p\<bar> \<le> 1 \<Longrightarrow> sum_list ps \<le> real (length ps)" for ps :: "real list"
  by (induction ps) auto

lemma squares_le_1024:
  fixes a :: "real list"
  assumes "length a \<le> 1024" and "\<forall>x\<in>set a. \<bar>x\<bar> \<le> 1"
  shows "(\<Sum>x\<leftarrow>a. x * x) \<le> 1024"
proof -
  have "\<forall>p\<in>set (map (\<lambda>x. x * x) a). \<bar>p\<bar> \<le> 1"
  proof
    fix p assume "p \<in> set (map (\<lambda>x. x * x) a)"
    then obtain x where x: "x \<in> set a" and p: "p = x * x" by auto
    from x assms(2) have "\<bar>x\<bar> \<le> 1" by blast
    then have "\<bar>x\<bar> * \<bar>x\<bar> \<le> 1" using mult_le_one [of "\<bar>x\<bar>" "\<bar>x\<bar>"] by simp
    then show "\<bar>p\<bar> \<le> 1" by (simp add: p abs_mult)
  qed
  from sum_list_le_length [OF this] assms(1) show ?thesis by simp
qed

lemma quotient_close:
  fixes d D dot E :: real
  assumes E: "1 / 10 ^ 8 \<le> E" and dot: "\<bar>dot\<bar> \<le> E"
    and d: "\<bar>d - dot\<bar> \<le> E / 2 ^ 41 + 1 / 2 ^ 180"
    and D: "\<bar>D - E\<bar> \<le> E / 2 ^ 37 + 1 / 2 ^ 81"
  shows "\<bar>d / D - dot / E\<bar> \<le> 1 / 2 ^ 35"
proof -
  have E0: "0 < E" using E by (rule less_le_trans [rotated]) simp
  have DE: "E / 2 \<le> D" using D E by (simp add: abs_le_iff)
  then have D0: "0 < D" using E0 by linarith
  define k where "k = \<bar>d - dot\<bar> + \<bar>D - E\<bar>"
  have k0: "0 \<le> k" by (simp add: k_def)
  define a1 where "a1 = \<bar>d - dot\<bar>"
  define a2 where "a2 = \<bar>D - E\<bar>"
  have "a1 \<le> E / 2 ^ 41 + 1 / 2 ^ 180" "a2 \<le> E / 2 ^ 37 + 1 / 2 ^ 81"
    using d D by (simp_all add: a1_def a2_def)
  then have "a1 + a2 \<le> E / 2 ^ 36" using E by simp
  then have k1: "k \<le> E / 2 ^ 36" by (simp add: k_def a1_def a2_def)
  have "d * E - dot * D = (d - dot) * E + dot * (E - D)" by (simp add: algebra_simps)
  then have "\<bar>d * E - dot * D\<bar> \<le> \<bar>(d - dot) * E\<bar> + \<bar>dot * (E - D)\<bar>" by simp
  also have "\<dots> = \<bar>d - dot\<bar> * E + \<bar>dot\<bar> * \<bar>D - E\<bar>"
    using E0 by (simp add: abs_mult abs_minus_commute)
  also have "\<dots> \<le> \<bar>d - dot\<bar> * E + E * \<bar>D - E\<bar>"
    using dot by (simp add: mult_right_mono)
  also have "\<dots> = k * E" by (simp add: k_def algebra_simps)
  also have "\<dots> \<le> (E / 2 ^ 36) * E" using k1 E0 by (intro mult_right_mono) simp_all
  also have "\<dots> = 1 / 2 ^ 35 * ((E / 2) * E)" by simp
  also have "\<dots> \<le> 1 / 2 ^ 35 * (D * E)"
    using DE E0 by (intro mult_left_mono mult_right_mono) simp_all
  finally have n: "\<bar>d * E - dot * D\<bar> \<le> 1 / 2 ^ 35 * (D * E)" .
  have "d / D - dot / E = (d * E - dot * D) / (D * E)"
    using D0 E0 by (simp add: field_simps)
  then have "\<bar>d / D - dot / E\<bar> = \<bar>d * E - dot * D\<bar> / (D * E)"
    using D0 E0 by (simp add: abs_divide)
  also have "\<dots> \<le> 1 / 2 ^ 35"
    using n D0 E0 by (simp add: pos_divide_le_eq)
  finally show ?thesis .
qed


lemma cosineSimilarity_bounded:
  assumes ab: "length a = length b" and l: "length a \<le> 1024"
    and ba: "\<forall>x\<in>set a. \<bar>x\<bar> \<le> 1" and bb: "\<forall>x\<in>set b. \<bar>x\<bar> \<le> 1"
  shows "\<exists>d x y D.
           cosineLoop a b 0 (Num 0, Num 0, Num 0) = (Num d, Num x, Num y)
         \<and> \<bar>d - dotp a b\<bar> \<le> (magnitude a * magnitude b) / 2 ^ 41 + 1 / 2 ^ 180
         \<and> ((\<forall>x\<in>set a. x = 0) \<or> (\<forall>x\<in>set b. x = 0) \<longrightarrow> d = 0)
         \<and> jsadd (jsmul (jssqrt (Num x)) (jssqrt (Num y))) EPSILON = Num D
         \<and> \<bar>D - (magnitude a * magnitude b + 1 / 10 ^ 8)\<bar>
               \<le> (magnitude a * magnitude b + 1 / 10 ^ 8) / 2 ^ 37 + 1 / 2 ^ 81
         \<and> 1 / 2 ^ 27 \<le> D \<and> \<bar>d\<bar> \<le> D
         \<and> cosineSimilarity (Some a) (Some b) = Inr (Num (rne (d / D)))"
proof -
  let ?P = "map2 (*) a b" and ?XA = "map (\<lambda>x. x * x) a" and ?XB = "map (\<lambda>x. x * x) b"
  define d where "d = racc 0 ?P"
  define x where "x = racc 0 ?XA"
  define y where "y = racc 0 ?XB"
  define A where "A = magnitude a"
  define B where "B = magnitude b"
  define M where "M = A * B"
  define sx where "sx = rne (sqrt x)"
  define sy where "sy = rne (sqrt y)"
  define D where "D = rne (rne (sx * sy) + rne (1 / 10 ^ 8))"
  have lb: "length b \<le> 1024" using ab l by simp
  have loop: "cosineLoop a b 0 (Num 0, Num 0, Num 0) = (Num d, Num x, Num y)"
    unfolding d_def x_def y_def by (rule cosineLoop_racc [OF ab l ba bb])
  have XA: "sum_list ?XA = dotp a a" and XB: "sum_list ?XB = dotp b b"
    by (simp_all add: dotp_self)
  have absA: "(\<Sum>p\<leftarrow>?XA. \<bar>p\<bar>) = dotp a a" and absB: "(\<Sum>p\<leftarrow>?XB. \<bar>p\<bar>) = dotp b b"
    by (simp_all add: dotp_self comp_def abs_mult)
  have X0: "0 \<le> dotp a a" and Y0: "0 \<le> dotp b b" by (rule dotp_self_nonneg)+
  have X1: "dotp a a \<le> 1024" unfolding dotp_self by (rule squares_le_1024 [OF l ba])
  have Y1: "dotp b b \<le> 1024" unfolding dotp_self by (rule squares_le_1024 [OF lb bb])
  have A0: "0 \<le> A" and B0: "0 \<le> B" by (simp_all add: A_def B_def magnitude_def X0 Y0)
  have A1: "A \<le> 32" unfolding A_def magnitude_def using X1 by (intro real_le_lsqrt) simp_all
  have B1: "B \<le> 32" unfolding B_def magnitude_def using Y1 by (intro real_le_lsqrt) simp_all
  have M0: "0 \<le> M" using A0 B0 by (simp add: M_def)
  have M1: "M \<le> 1024"
  proof -
    have "A * B \<le> 32 * 32" using A0 A1 B0 B1 by (intro mult_mono) simp_all
    then show ?thesis by (simp add: M_def)
  qed
  have x0: "0 \<le> x" unfolding x_def by (rule racc_nonneg) auto
  have y0: "0 \<le> y" unfolding y_def by (rule racc_nonneg) auto
  have ex: "\<bar>x - dotp a a\<bar> \<le> dotp a a / 2 ^ 41 + 1 / 2 ^ 180"
    using racc_err_1024 [of ?XA] l unfolding x_def XA absA by simp
  have ey: "\<bar>y - dotp b b\<bar> \<le> dotp b b / 2 ^ 41 + 1 / 2 ^ 180"
    using racc_err_1024 [of ?XB] lb unfolding y_def XB absB by simp
  have absP: "(\<Sum>p\<leftarrow>?P. \<bar>p\<bar>) = (\<Sum>(x, y)\<leftarrow>zip a b. \<bar>x * y\<bar>)"
    by (simp add: comp_def case_prod_unfold)
  have PM: "(\<Sum>p\<leftarrow>?P. \<bar>p\<bar>) \<le> M"
    unfolding absP M_def A_def B_def magnitude_def dotp_self by (rule cauchy_schwarz_list [OF ab])
  have sP: "sum_list ?P = dotp a b" by (simp add: dotp_def)
  have dotM: "\<bar>dotp a b\<bar> \<le> M"
    using sum_list_abs [of ?P] PM unfolding sP by linarith
  have ed': "\<bar>d - dotp a b\<bar> \<le> (\<Sum>p\<leftarrow>?P. \<bar>p\<bar>) / 2 ^ 41 + 1 / 2 ^ 180"
    using racc_err_1024 [of ?P] l ab unfolding d_def sP by simp
  have ed: "\<bar>d - dotp a b\<bar> \<le> M / 2 ^ 41 + 1 / 2 ^ 180"
    using ed' PM by simp
  have zero: "d = 0" if "(\<forall>x\<in>set a. x = 0) \<or> (\<forall>x\<in>set b. x = 0)"
    unfolding d_def
  proof (rule racc_zeros, rule ballI)
    fix p assume "p \<in> set ?P"
    then obtain u v where uv: "(u, v) \<in> set (zip a b)" and p: "p = u * v" by auto
    from uv have "u \<in> set a" and "v \<in> set b" by (auto dest: set_zip_leftD set_zip_rightD)
    with that p show "p = 0" by auto
  qed
  have sx0: "0 \<le> sx" unfolding sx_def using x0 by (intro rne_nonneg) simp
  have sy0: "0 \<le> sy" unfolding sy_def using y0 by (intro rne_nonneg) simp
  have sxl: "(1 - 1 / 2 ^ 40) * A - 1 / 2 ^ 89 \<le> sx"
    and sxu: "sx \<le> (1 + 1 / 2 ^ 40) * A + 1 / 2 ^ 89"
    unfolding sx_def A_def magnitude_def by (rule root_bounds [OF X0 X1 x0 ex])+
  have syl: "(1 - 1 / 2 ^ 40) * B - 1 / 2 ^ 89 \<le> sy"
    and syu: "sy \<le> (1 + 1 / 2 ^ 40) * B + 1 / 2 ^ 89"
    unfolding sy_def B_def magnitude_def by (rule root_bounds [OF Y0 Y1 y0 ey])+
  have Dl: "(1 - 1 / 2 ^ 37) * (M + 1 / 10 ^ 8) - 1 / 2 ^ 81 \<le> D"
    and Du: "D \<le> (1 + 1 / 2 ^ 37) * (M + 1 / 10 ^ 8) + 1 / 2 ^ 81"
    unfolding D_def M_def by (rule divisor_bounds [OF A0 A1 B0 B1 sx0 sxl sxu sy0 syl syu])+
  define E where "E = M + 1 / 10 ^ 8"
  have E0: "1 / 10 ^ 8 \<le> E" and E1: "E \<le> 1025" using M0 M1 by (simp_all add: E_def)
  have DE: "\<bar>D - E\<bar> \<le> E / 2 ^ 37 + 1 / 2 ^ 81"
    using Dl Du unfolding E_def [symmetric] by (simp add: abs_le_iff algebra_simps)
  have D27: "1 / 2 ^ 27 \<le> D" using Dl E0 unfolding E_def [symmetric] by (simp add: algebra_simps)
  have dD: "\<bar>d\<bar> \<le> D"
  proof -
    have "\<bar>d\<bar> \<le> \<bar>dotp a b\<bar> + \<bar>d - dotp a b\<bar>" by simp
    also have "\<dots> \<le> M + (M / 2 ^ 41 + 1 / 2 ^ 180)" using dotM ed by simp
    finally have 1: "\<bar>d\<bar> \<le> M + M / 2 ^ 41 + 1 / 2 ^ 180" by simp
    have 2: "M + M / 2 ^ 41 + 1 / 2 ^ 180 \<le> (1 - 1 / 2 ^ 37) * (M + 1 / 10 ^ 8) - 1 / 2 ^ 81"
      using M0 M1 by (simp add: algebra_simps)
    from 1 2 Dl show ?thesis by linarith
  qed
  have x1: "x \<le> 1025" using ex X1 X0 by (simp add: abs_le_iff)
  have y1: "y \<le> 1025" using ey Y1 Y0 by (simp add: abs_le_iff)
  have sqx: "jssqrt (Num x) = Num sx"
  proof -
    have "sqrt x \<le> 2 ^ 13" using x0 x1 by (intro real_le_lsqrt) simp_all
    then have "\<bar>sqrt x\<bar> \<le> 2 ^ 13" using x0 by simp
    then have "fl (sqrt x) = Num (rne (sqrt x))" by (intro fl_Num le_huge)
    then show ?thesis using x0 by (simp add: sx_def)
  qed
  have sqy: "jssqrt (Num y) = Num sy"
  proof -
    have "sqrt y \<le> 2 ^ 13" using y0 y1 by (intro real_le_lsqrt) simp_all
    then have "\<bar>sqrt y\<bar> \<le> 2 ^ 13" using y0 by simp
    then have "fl (sqrt y) = Num (rne (sqrt y))" by (intro fl_Num le_huge)
    then show ?thesis using y0 by (simp add: sy_def)
  qed
  have sx33: "sx \<le> 33" using sxu A1 by simp
  have sy33: "sy \<le> 33" using syu B1 by simp
  have p11: "\<bar>sx * sy\<bar> \<le> 2 ^ 11"
  proof -
    have "sx * sy \<le> 33 * 33" using sx0 sy0 sx33 sy33 by (intro mult_mono) simp_all
    then show ?thesis using sx0 sy0 by (simp add: abs_mult)
  qed
  have mul: "jsmul (Num sx) (Num sy) = Num (rne (sx * sy))"
  proof -
    from p11 have "\<bar>sx * sy\<bar> \<le> 2 ^ 13" by simp
    then have "fl (sx * sy) = Num (rne (sx * sy))" by (intro fl_Num le_huge)
    then show ?thesis by simp
  qed
  have eps: "EPSILON = Num (rne (1 / 10 ^ 8))"
  proof -
    have "\<bar>1 / 10 ^ 8 :: real\<bar> \<le> 2 ^ 13" by simp
    then have "fl (1 / 10 ^ 8) = Num (rne (1 / 10 ^ 8))" by (intro fl_Num le_huge)
    then show ?thesis by (simp only: EPSILON_def)
  qed
  have div: "jsadd (jsmul (jssqrt (Num x)) (jssqrt (Num y))) EPSILON = Num D"
  proof -
    have m: "\<bar>rne (sx * sy)\<bar> \<le> 2 ^ 11" using p11 by (rule rne_abs_le_pow2)
    have "\<bar>1 / 10 ^ 8 :: real\<bar> \<le> 2 ^ 0" by simp
    then have "\<bar>rne (1 / 10 ^ 8)\<bar> \<le> 2 ^ 0" by (rule rne_abs_le_pow2)
    with m have "\<bar>rne (sx * sy) + rne (1 / 10 ^ 8)\<bar> \<le> 2 ^ 13" by simp
    then have "fl (rne (sx * sy) + rne (1 / 10 ^ 8)) = Num D"
      unfolding D_def by (intro fl_Num le_huge)
    then show ?thesis unfolding sqx sqy mul eps by simp
  qed
  have Dpos: "0 < D" using D27 by (rule less_le_trans [rotated]) simp
  have quo: "jsdiv (Num d) (Num D) = Num (rne (d / D))"
  proof -
    have "\<bar>d / D\<bar> \<le> 1" using dD Dpos by simp
    then have "\<bar>d / D\<bar> \<le> 2 ^ 13" by simp
    then have "fl (d / D) = Num (rne (d / D))" by (intro fl_Num le_huge)
    then show ?thesis using Dpos by simp
  qed
  have cs: "cosineSimilarity (Some a) (Some b) = Inr (Num (rne (d / D)))"
    by (simp add: cosineSimilarity_def loop div quo
          del: jssqrt.simps jsdiv.simps jsadd.simps jsmul.simps)
  have ed2: "\<bar>d - dotp a b\<bar> \<le> (magnitude a * magnitude b) / 2 ^ 41 + 1 / 2 ^ 180"
    using ed by (simp only: M_def A_def B_def)
  have DE2: "\<bar>D - (magnitude a * magnitude b + 1 / 10 ^ 8)\<bar>
               \<le> (magnitude a * magnitude b + 1 / 10 ^ 8) / 2 ^ 37 + 1 / 2 ^ 81"
    using DE by (simp only: E_def M_def A_def B_def)
  from zero have z: "(\<forall>x\<in>set a. x = 0) \<or> (\<forall>x\<in>set b. x = 0) \<longrightarrow> d = 0" by blast
  show ?thesis
    by (rule exI [of _ d], rule exI [of _ x], rule exI [of _ y], rule exI [of _ D])
       (intro conjI loop ed2 z div DE2 D27 dD cs)
qed

lemma cosineSimilarity_value:
  assumes "length a = length b" and "length a \<le> 1024"
    and "\<forall>x\<in>set a. \<bar>x\<bar> \<le> 1" and "\<forall>x\<in>set b. \<bar>x\<bar> \<le> 1"
  shows "\<exists>s. cosineSimilarity (Some a) (Some b) = Inr (Num s)
             \<and> \<bar>s\<bar> \<le> 1
             \<and> \<bar>s - cosine a b\<bar> \<le> 1 / 2 ^ 34
             \<and> ((\<forall>x\<in>set a. x = 0) \<or> (\<forall>x\<in>set b. x = 0) \<longrightarrow> s = 0)
             \<and> (\<exists>n::int. s * subnormal_scale = of_int n)"
proof -
  from cosineSimilarity_bounded [OF assms] obtain d x y D where
    ed: "\<bar>d - dotp a b\<bar> \<le> (magnitude a * magnitude b) / 2 ^ 41 + 1 / 2 ^ 180" and
    z: "(\<forall>x\<in>set a. x = 0) \<or> (\<forall>x\<in>set b. x = 0) \<longrightarrow> d = 0" and
    DE: "\<bar>D - (magnitude a * magnitude b + 1 / 10 ^ 8)\<bar>
               \<le> (magnitude a * magnitude b + 1 / 10 ^ 8) / 2 ^ 37 + 1 / 2 ^ 81" and
    D27: "1 / 2 ^ 27 \<le> D" and dD: "\<bar>d\<bar> \<le> D" and
    cs: "cosineSimilarity (Some a) (Some b) = Inr (Num (rne (d / D)))"
    by blast
  define E where "E = magnitude a * magnitude b + 1 / 10 ^ 8"
  define q where "q = d / D"
  have Dpos: "0 < D" using D27 by (rule less_le_trans [rotated]) simp
  have q1: "\<bar>q\<bar> \<le> 1" using dD Dpos by (simp add: q_def)
  have s1: "\<bar>rne q\<bar> \<le> 1" using rne_abs_le_pow2 [of q 0] q1 by simp
  have M0: "0 \<le> magnitude a * magnitude b"
    by (simp add: magnitude_def dotp_self_nonneg)
  then have E0: "1 / 10 ^ 8 \<le> E" by (simp add: E_def)
  have cauchy: "\<bar>dotp a b\<bar> \<le> magnitude a * magnitude b"
  proof -
    have "\<bar>dotp a b\<bar> \<le> (\<Sum>p\<leftarrow>map2 (*) a b. \<bar>p\<bar>)"
      using sum_list_abs [of "map2 (*) a b"] by (simp add: dotp_def)
    also have "\<dots> = (\<Sum>(x, y)\<leftarrow>zip a b. \<bar>x * y\<bar>)" by (simp add: comp_def case_prod_unfold)
    also have "\<dots> \<le> magnitude a * magnitude b"
      unfolding magnitude_def dotp_self by (rule cauchy_schwarz_list [OF assms(1)])
    finally show ?thesis .
  qed
  then have dotE: "\<bar>dotp a b\<bar> \<le> E" by (simp add: E_def)
  have "magnitude a * magnitude b / 2 ^ 41 \<le> E / 2 ^ 41" by (simp add: E_def)
  with ed have ed': "\<bar>d - dotp a b\<bar> \<le> E / 2 ^ 41 + 1 / 2 ^ 180" by linarith
  have "\<bar>d / D - dotp a b / E\<bar> \<le> 1 / 2 ^ 35"
    using DE by (intro quotient_close [OF E0 dotE ed']) (simp only: E_def)
  then have c1: "\<bar>q - cosine a b\<bar> \<le> 1 / 2 ^ 35" by (simp only: q_def cosine_def E_def)
  have "\<bar>rne q - q\<bar> \<le> \<bar>q\<bar> / 2 ^ 53 + 1 / 2 ^ 200"
    using rne_err [of q] eta_small by linarith
  with q1 have c2: "\<bar>rne q - q\<bar> \<le> 1 / 2 ^ 53 + 1 / 2 ^ 200" by simp
  have "\<bar>rne q - cosine a b\<bar> \<le> \<bar>rne q - q\<bar> + \<bar>q - cosine a b\<bar>" by simp
  with c1 c2 have acc: "\<bar>rne q - cosine a b\<bar> \<le> 1 / 2 ^ 34" by simp
  have zero: "(\<forall>x\<in>set a. x = 0) \<or> (\<forall>x\<in>set b. x = 0) \<longrightarrow> rne q = 0"
    using z by (auto simp: q_def rne_0)
  have grid: "\<exists>n::int. rne q * subnormal_scale = of_int n"
  proof (cases "q < 0")
    case True
    from rne_mag_grid [of "- q"] obtain n :: int where "rne_mag (- q) * subnormal_scale = of_int n" ..
    then have "rne q * subnormal_scale = of_int (- n)" using True by (simp add: rne_def)
    then show ?thesis ..
  next
    case False
    then show ?thesis using rne_mag_grid [of q] by (simp add: rne_def)
  qed
  show ?thesis
    using cs s1 acc zero grid unfolding q_def [symmetric] by blast
qed


lemma EPSILON_Num: "EPSILON = Num (rne (1 / 10 ^ 8))"
proof -
  have "\<bar>1 / 10 ^ 8 :: real\<bar> \<le> 2 ^ 13" by simp
  then have "fl (1 / 10 ^ 8) = Num (rne (1 / 10 ^ 8))" by (intro fl_Num le_huge)
  then show ?thesis by (simp only: EPSILON_def)
qed

lemma fl_huge_square: "fl (huge * huge) = PosInf"
proof -
  have "(2::real) ^ 1024 \<le> 2 ^ 1200" by (rule power_increasing) simp_all
  also have "(2::real) ^ 1200 = huge * huge" by (simp add: huge_def flip: power_add)
  finally show ?thesis by (rule fl_overflow)
qed

lemma cosine_huge: "cosineSimilarity (Some [huge]) (Some [huge]) = Inr NaN"
proof -
  have "cosineLoop [huge] [huge] 0 (Num 0, Num 0, Num 0) = (PosInf, PosInf, PosInf)"
    by (subst cosineLoop.simps, subst cosineLoop.simps) (simp add: elem_def fl_huge_square)
  then show ?thesis by (simp add: cosineSimilarity_def EPSILON_Num)
qed

lemma fl_0: "fl 0 = Num 0"
  using fl_Num [of 0] by (simp add: rne_0)

lemma cosine_zero_huge: "cosineSimilarity (Some [0]) (Some [huge]) = Inr NaN"
proof -
  have "cosineLoop [0] [huge] 0 (Num 0, Num 0, Num 0) = (Num 0, Num 0, PosInf)"
    by (subst cosineLoop.simps, subst cosineLoop.simps) (simp add: elem_def fl_0 fl_huge_square)
  then show ?thesis by (simp add: cosineSimilarity_def fl_0)
qed

lemma cosineSimilarity_facts:
  assumes "length a = length b" and "length a \<le> 1024"
    and "\<forall>x\<in>set a. \<bar>x\<bar> \<le> 1" and "\<forall>x\<in>set b. \<bar>x\<bar> \<le> 1"
  shows "\<exists>d x y D s.
           cosineLoop a b 0 (Num 0, Num 0, Num 0) = (Num d, Num x, Num y)
         \<and> \<bar>d - dotp a b\<bar> \<le> (magnitude a * magnitude b) / 2 ^ 41 + 1 / 2 ^ 180
         \<and> jsadd (jsmul (jssqrt (Num x)) (jssqrt (Num y))) EPSILON = Num D
         \<and> 1 / 2 ^ 27 \<le> D
         \<and> \<bar>D - (magnitude a * magnitude b + 1 / 10 ^ 8)\<bar>
               \<le> (magnitude a * magnitude b + 1 / 10 ^ 8) / 2 ^ 37 + 1 / 2 ^ 81
         \<and> cosineSimilarity (Some a) (Some b) = Inr (Num s)
         \<and> s = rne (d / D)
         \<and> - 1 \<le> s \<and> s \<le> 1
         \<and> \<bar>s - cosine a b\<bar> \<le> 1 / 2 ^ 34
         \<and> ((\<forall>x\<in>set a. x = 0) \<or> (\<forall>x\<in>set b. x = 0) \<longrightarrow> s = 0)
         \<and> onGrid s"
proof -
  from cosineSimilarity_bounded [OF assms] obtain d x y D where
    f1: "cosineLoop a b 0 (Num 0, Num 0, Num 0) = (Num d, Num x, Num y)" and
    f2: "\<bar>d - dotp a b\<bar> \<le> (magnitude a * magnitude b) / 2 ^ 41 + 1 / 2 ^ 180" and
    f3: "jsadd (jsmul (jssqrt (Num x)) (jssqrt (Num y))) EPSILON = Num D" and
    f4: "1 / 2 ^ 27 \<le> D" and
    f5: "\<bar>D - (magnitude a * magnitude b + 1 / 10 ^ 8)\<bar>
               \<le> (magnitude a * magnitude b + 1 / 10 ^ 8) / 2 ^ 37 + 1 / 2 ^ 81" and
    f6: "cosineSimilarity (Some a) (Some b) = Inr (Num (rne (d / D)))"
    by blast
  from cosineSimilarity_value [OF assms] obtain s where
    g1: "cosineSimilarity (Some a) (Some b) = Inr (Num s)" and
    g2: "\<bar>s\<bar> \<le> 1" and
    g3: "\<bar>s - cosine a b\<bar> \<le> 1 / 2 ^ 34" and
    g4: "(\<forall>x\<in>set a. x = 0) \<or> (\<forall>x\<in>set b. x = 0) \<longrightarrow> s = 0" and
    g5: "\<exists>n::int. s * subnormal_scale = of_int n"
    by blast
  from f6 g1 have g6: "s = rne (d / D)" by simp
  from g2 have g7: "- 1 \<le> s" and g8: "s \<le> 1" by (simp_all add: abs_le_iff)
  from g5 have g9: "onGrid s" by (simp add: onGrid_iff)
  show ?thesis
    by (rule exI [of _ d], rule exI [of _ x], rule exI [of _ y], rule exI [of _ D],
        rule exI [of _ s])
       (intro conjI f1 f2 f3 f4 f5 g1 g6 g7 g8 g3 g4 g9)
qed

text \<open>
  C4, as the code has it. The claim is made of all equal-length numeric vectors. With a
  component \<open>2 ^ 600\<close> the squares overflow to infinity, and the similarity of the vector
  with itself is \<^verbatim>\<open>NaN\<close>: not a number of the interval from \<open>-1\<close> to \<open>1\<close>. And the
  similarity of an all-zero vector with that vector is \<^verbatim>\<open>NaN\<close>, not \<open>0\<close>.
\<close>

theorem overflowing_vectors_counterexample:
  "huge = 2 ^ 600
   \<and> length [huge] = length [huge]
   \<and> cosineSimilarity (Some [huge]) (Some [huge]) = Inr NaN
   \<and> length [0 :: real] = length [huge]
   \<and> cosineSimilarity (Some [0]) (Some [huge]) = Inr NaN"
  using cosine_huge cosine_zero_huge by (simp add: huge_def)

text \<open>
  C4, amended. For two vectors of one length, of at most 1024 components, each between
  \<open>-1\<close> and \<open>1\<close>: the loop ends with three finite numbers, the first within
  \<open>\<bar>a\<bar> * \<bar>b\<bar> / 2 ^ 41 + 2 ^ - 180\<close> of the exact dot product; the divisor
  \<^verbatim>\<open>Math.sqrt(normA) * Math.sqrt(normB) + 1e-8\<close> is a finite number, at least \<open>2 ^ - 27\<close>
  (so nothing is divided by zero) and within a relative \<open>2 ^ - 37\<close> of
  \<open>\<bar>a\<bar> * \<bar>b\<bar> + 10 ^ - 8\<close>; the similarity returned is the rounded quotient of the two, a
  finite number between \<open>-1\<close> and \<open>1\<close>, within \<open>2 ^ - 34\<close> of the exact value
  \<open>dot / (\<bar>a\<bar> * \<bar>b\<bar> + 10 ^ - 8)\<close>, and \<open>0\<close> when \<open>a\<close> or \<open>b\<close> is all zeros.
\<close>

theorem cosine_of_unit_range_vectors:
  assumes "length a = length b" and "length a \<le> 1024"
    and "\<forall>x\<in>set a. \<bar>x\<bar> \<le> 1" and "\<forall>x\<in>set b. \<bar>x\<bar> \<le> 1"
  shows "\<exists>d x y D s.
           cosineLoop a b 0 (Num 0, Num 0, Num 0) = (Num d, Num x, Num y)
         \<and> \<bar>d - dotp a b\<bar> \<le> (magnitude a * magnitude b) / 2 ^ 41 + 1 / 2 ^ 180
         \<and> jsadd (jsmul (jssqrt (Num x)) (jssqrt (Num y))) EPSILON = Num D
         \<and> 1 / 2 ^ 27 \<le> D
         \<and> \<bar>D - (magnitude a * magnitude b + 1 / 10 ^ 8)\<bar>
               \<le> (magnitude a * magnitude b + 1 / 10 ^ 8) / 2 ^ 37 + 1 / 2 ^ 81
         \<and> cosineSimilarity (Some a) (Some b) = Inr (Num s)
         \<and> s = rne (d / D)
         \<and> - 1 \<le> s \<and> s \<le> 1
         \<and> \<bar>s - cosine a b\<bar> \<le> 1 / 2 ^ 34
         \<and> ((\<forall>x\<in>set a. x = 0) \<or> (\<forall>x\<in>set b. x = 0) \<longrightarrow> s = 0)
         \<and> onGrid s"
  by (rule cosineSimilarity_facts [OF assms])

lemma cosine_10_10: "cosine [1, 0] [1, 0] = 1 / (1 + 1 / 10 ^ 8)"
  by (simp add: cosine_def dotp_def magnitude_def)

lemma cosine_10_01: "cosine [1, 0] [0, 1] = 0"
  by (simp add: cosine_def dotp_def)

theorem cosine_of_unit_range_vectors_witness:
  "length [1, 0 :: real] = length [1, 0 :: real] \<and> length [1, 0 :: real] \<le> 1024
   \<and> \<bar>1 :: real\<bar> \<le> 1 \<and> \<bar>0 :: real\<bar> \<le> 1
   \<and> (\<exists>s. cosineSimilarity (Some [1, 0]) (Some [1, 0]) = Inr (Num s)
           \<and> - 1 \<le> s \<and> s \<le> 1 \<and> \<bar>s - 1 / (1 + 1 / 10 ^ 8)\<bar> \<le> 1 / 2 ^ 34)"
proof -
  have h: "length [1, 0 :: real] = length [1, 0 :: real]" "length [1, 0 :: real] \<le> 1024"
    "\<forall>x\<in>set [1, 0 :: real]. \<bar>x\<bar> \<le> 1" by simp_all
  from cosine_of_unit_range_vectors [OF h(1) h(2) h(3) h(3)] obtain s where
    "cosineSimilarity (Some [1, 0]) (Some [1, 0]) = Inr (Num s)" "- 1 \<le> s" "s \<le> 1"
    "\<bar>s - cosine [1, 0] [1, 0]\<bar> \<le> 1 / 2 ^ 34" by blast
  then have "\<exists>s. cosineSimilarity (Some [1, 0]) (Some [1, 0]) = Inr (Num s)
           \<and> - 1 \<le> s \<and> s \<le> 1 \<and> \<bar>s - 1 / (1 + 1 / 10 ^ 8)\<bar> \<le> 1 / 2 ^ 34"
    unfolding cosine_10_10 by blast
  then show ?thesis by simp
qed

lemma cosineSimilarity_total: "\<exists>s. cosineSimilarity (Some a) (Some b) = Inr s"
  by (simp add: cosineSimilarity_def split: prod.splits)

section \<open>The reranker\<close>

lemma chunk_of_scored [simp]: "chunk_of (scored c s) = c"
  by (simp add: chunk_of_def scored_def)

lemma chunk_of_unscored [simp]: "chunk_of (unscored c) = c"
  by (simp add: chunk_of_def unscored_def)

lemma scoreChunks_Inr:
  "scoreChunks q ces i cs = Inr rs \<Longrightarrow>
   length rs = length cs
   \<and> (\<forall>j<length cs. \<exists>s. cosineSimilarity q (index ces (i + j)) = Inr s \<and> rs ! j = scored (cs ! j) s)"
proof (induction cs arbitrary: i rs)
  case Nil
  then show ?case by simp
next
  case (Cons c cs)
  from Cons.prems obtain s rest where
    s: "cosineSimilarity q (index ces i) = Inr s" and
    rest: "scoreChunks q ces (i + 1) cs = Inr rest" and
    rs: "rs = scored c s # rest"
    by (auto split: sum.splits)
  from Cons.IH[OF rest] have l: "length rest = length cs" and
    el: "\<And>j. j < length cs \<Longrightarrow> \<exists>s. cosineSimilarity q (index ces (i + 1 + j)) = Inr s \<and> rest ! j = scored (cs ! j) s"
    by auto
  have "\<exists>s'. cosineSimilarity q (index ces (i + j)) = Inr s' \<and> rs ! j = scored ((c # cs) ! j) s'"
    if "j < length (c # cs)" for j
  proof (cases j)
    case 0
    then show ?thesis using s rs by simp
  next
    case (Suc j')
    with that el[of j'] rs show ?thesis by simp
  qed
  with l rs show ?case by simp
qed

lemma scoreChunks_chunks: "scoreChunks q ces i cs = Inr rs \<Longrightarrow> map chunk_of rs = cs"
  by (induction cs arbitrary: i rs) (auto split: sum.splits)

lemma scoreChunks_throws:
  "j < length cs \<Longrightarrow> cosineSimilarity q (index ces (i + j)) = Inl e \<Longrightarrow>
   \<exists>e'. scoreChunks q ces i cs = Inl e'"
proof (induction cs arbitrary: i j)
  case Nil
  then show ?case by simp
next
  case (Cons c cs)
  show ?case
  proof (cases j)
    case 0
    with Cons.prems show ?thesis by simp
  next
    case (Suc j')
    with Cons.prems Cons.IH[of j' "i + 1"] show ?thesis
      by (auto split: sum.splits)
  qed
qed

lemma scoreChunks_succeeds:
  "(\<forall>j<length cs. \<exists>s. cosineSimilarity q (index ces (i + j)) = Inr s) \<Longrightarrow>
   \<exists>rs. scoreChunks q ces i cs = Inr rs"
proof (induction cs arbitrary: i)
  case Nil
  then show ?case by simp
next
  case (Cons c cs)
  from Cons.prems have "\<exists>s. cosineSimilarity q (index ces (i + 0)) = Inr s" by blast
  then obtain s where s: "cosineSimilarity q (index ces i) = Inr s" by auto
  have "\<forall>j<length cs. \<exists>s. cosineSimilarity q (index ces (i + 1 + j)) = Inr s"
  proof (intro allI impI)
    fix j assume "j < length cs"
    then have "Suc j < length (c # cs)" by simp
    with Cons.prems have "\<exists>s. cosineSimilarity q (index ces (i + Suc j)) = Inr s" by blast
    then show "\<exists>s. cosineSimilarity q (index ces (i + 1 + j)) = Inr s" by simp
  qed
  from Cons.IH[OF this] s show ?case by auto
qed

lemma rerankChunks_cases:
  "rerankChunks q cs run = map unscored cs
   \<or> (\<exists>vs rs. embedLoop run (q # map chunk_text cs) 0 [] = Inr vs
        \<and> scoreChunks (index vs 0) (slice vs 1 (length vs)) 0 cs = Inr rs
        \<and> rerankChunks q cs run = js_sort (\<lambda>a b. jssub (sim b) (sim a)) rs)"
  by (simp add: rerankChunks_def Let_def split: sum.splits)

text \<open>
  C10. Whatever the embedding collaborator does, the chunks in the result of
  \<^verbatim>\<open>rerankChunks\<close> are the input chunks, each exactly once, with identifier, section
  title and text as they came. The result is either the input list itself, without
  similarities (the fallback), or a permutation of the input chunks, each with a
  similarity added.
\<close>

theorem rerank_keeps_every_chunk:
  "mset (map chunk_of (rerankChunks q cs run)) = mset cs
   \<and> (rerankChunks q cs run = map unscored cs
      \<or> (\<exists>ss. length ss = length cs
            \<and> mset (rerankChunks q cs run) = mset (map2 scored cs ss)))"
proof -
  from rerankChunks_cases[of q cs run] show ?thesis
  proof
    assume fb: "rerankChunks q cs run = map unscored cs"
    then show ?thesis by (simp add: comp_def)
  next
    assume "\<exists>vs rs. embedLoop run (q # map chunk_text cs) 0 [] = Inr vs
        \<and> scoreChunks (index vs 0) (slice vs 1 (length vs)) 0 cs = Inr rs
        \<and> rerankChunks q cs run = js_sort (\<lambda>a b. jssub (sim b) (sim a)) rs"
    then obtain vs rs where
      sc: "scoreChunks (index vs 0) (slice vs 1 (length vs)) 0 cs = Inr rs" and
      r: "rerankChunks q cs run = js_sort (\<lambda>a b. jssub (sim b) (sim a)) rs"
      by blast
    from r have m: "mset (rerankChunks q cs run) = mset rs" by (simp add: mset_js_sort)
    then have "mset (map chunk_of (rerankChunks q cs run)) = mset (map chunk_of rs)"
      by (metis mset_map)
    with scoreChunks_chunks[OF sc] have 1: "mset (map chunk_of (rerankChunks q cs run)) = mset cs"
      by simp
    from scoreChunks_Inr[OF sc] have l: "length rs = length cs" and
      el: "\<forall>j<length cs. \<exists>s. rs ! j = scored (cs ! j) s" by auto
    define ss where "ss = map (\<lambda>r. sim r) rs"
    have "rs = map2 scored cs ss"
    proof (rule nth_equalityI)
      show "length rs = length (map2 scored cs ss)" using l by (simp add: ss_def)
    next
      fix j assume j: "j < length rs"
      with l el obtain s where s: "rs ! j = scored (cs ! j) s" by auto
      then have "sim (rs ! j) = s" by (simp add: sim_def scored_def)
      with s j l show "rs ! j = map2 scored cs ss ! j" by (simp add: ss_def)
    qed
    with m have 3: "mset (rerankChunks q cs run) = mset (map2 scored cs ss)" by simp
    have 2: "length ss = length cs" using l by (simp add: ss_def)
    show ?thesis
      by (rule conjI[OF 1]) (rule disjI2, rule exI[of _ ss], rule conjI[OF 2 3])
  qed
qed

lemma embedsWell_answers: "embedsWell run n \<Longrightarrow> answersEveryText run"
  unfolding embedsWell_def answersEveryText_def by blast

lemma embedLoop_parallel:
  assumes "answersEveryText run"
  shows "\<exists>vs. embedLoop run texts 0 [] = Inr vs \<and> length vs = length texts
           \<and> (\<forall>j<length texts.
                 \<exists>d. run (j div EMBEDDING_BATCH_SIZE) (batchOf texts (j div EMBEDDING_BATCH_SIZE)) = AiData d
                      \<and> batchOf texts (j div EMBEDDING_BATCH_SIZE) \<noteq> []
                      \<and> length (batchOf texts (j div EMBEDDING_BATCH_SIZE)) \<le> EMBEDDING_BATCH_SIZE
                      \<and> length d = length (batchOf texts (j div EMBEDDING_BATCH_SIZE))
                      \<and> j mod EMBEDDING_BATCH_SIZE < length d
                      \<and> vs ! j = d ! (j mod EMBEDDING_BATCH_SIZE))"
proof -
  let ?B = EMBEDDING_BATCH_SIZE
  from embedLoop_contract[OF assms, of texts 0 "[]"] obtain vs where
    e: "embedLoop run texts 0 [] = Inr vs" and l: "length vs = length texts" and
    el: "\<And>j. j < length texts \<Longrightarrow>
           \<exists>d. run (j div ?B) (slice texts (?B * (j div ?B)) (?B * (j div ?B) + ?B)) = AiData d
                \<and> length d = min ?B (length texts - ?B * (j div ?B))
                \<and> vs ! j = d ! (j mod ?B)"
    by auto
  have "\<exists>d. run (j div ?B) (batchOf texts (j div ?B)) = AiData d
                      \<and> batchOf texts (j div ?B) \<noteq> []
                      \<and> length (batchOf texts (j div ?B)) \<le> ?B
                      \<and> length d = length (batchOf texts (j div ?B))
                      \<and> j mod ?B < length d
                      \<and> vs ! j = d ! (j mod ?B)" if j: "j < length texts" for j
  proof -
    from el[OF j] obtain d where d: "run (j div ?B) (batchOf texts (j div ?B)) = AiData d"
      "length d = min ?B (length texts - ?B * (j div ?B))" "vs ! j = d ! (j mod ?B)"
      unfolding batchOf_def by blast
    have bl: "length (batchOf texts (j div ?B)) = min ?B (length texts - ?B * (j div ?B))"
      by (simp add: batchOf_def slice_length)
    have m1: "j mod ?B < ?B" using batch_pos by simp
    have "?B * (j div ?B) + j mod ?B = j" by simp
    with j have m2: "j mod ?B < length texts - ?B * (j div ?B)" by linarith
    from m1 m2 have m: "j mod ?B < min ?B (length texts - ?B * (j div ?B))" by simp
    then have "batchOf texts (j div ?B) \<noteq> []" using bl by auto
    with d bl m show ?thesis by auto
  qed
  with e l show ?thesis by blast
qed

lemma index_drop1: "index (slice vs 1 (length vs)) i = index vs (Suc i)"
  by (auto simp: index_def slice_def)

lemma rerankChunks_success:
  assumes e: "embedLoop run (q # map chunk_text cs) 0 [] = Inr vs"
    and l: "length vs = Suc (length cs)"
    and ls: "length ss = length cs"
    and c: "\<forall>j<length cs. cosineSimilarity (Some (vs ! 0)) (Some (vs ! Suc j)) = Inr (ss ! j)"
  shows "rerankChunks q cs run = js_sort (\<lambda>a b. jssub (sim b) (sim a)) (map2 scored cs ss)"
proof -
  have cosv: "cosineSimilarity (index vs 0) (index (slice vs 1 (length vs)) (0 + j)) = Inr (ss ! j)"
    if "j < length cs" for j
    unfolding index_drop1 using that l c by (simp add: index_def)
  then have "\<forall>j<length cs. \<exists>s. cosineSimilarity (index vs 0) (index (slice vs 1 (length vs)) (0 + j)) = Inr s"
    by blast
  from scoreChunks_succeeds[OF this] obtain rs where
    rs: "scoreChunks (index vs 0) (slice vs 1 (length vs)) 0 cs = Inr rs" by blast
  from scoreChunks_Inr[OF rs] have rl: "length rs = length cs" and
    rel: "\<And>j. j < length cs \<Longrightarrow> \<exists>s. cosineSimilarity (index vs 0) (index (slice vs 1 (length vs)) (0 + j)) = Inr s \<and> rs ! j = scored (cs ! j) s"
    by auto
  have "rs = map2 scored cs ss"
  proof (rule nth_equalityI)
    show "length rs = length (map2 scored cs ss)" using rl ls by simp
  next
    fix j assume "j < length rs"
    with rl have j: "j < length cs" by simp
    from rel[OF j] cosv[OF j] have "rs ! j = scored (cs ! j) (ss ! j)" by auto
    with j ls show "rs ! j = map2 scored cs ss ! j" by simp
  qed
  with rs e show ?thesis by (simp add: rerankChunks_def)
qed

lemma sim_scored [simp]: "sim (scored c s) = s"
  by (simp add: sim_def scored_def)

text \<open>
  C5, amended. With a collaborator that returns, for every text of a batch, one vector of a
  fixed dimension of at most 1024 with components between \<open>-1\<close> and \<open>1\<close>: the text list
  embedded is the question followed by the texts of the chunks in their order; it is sent
  in batches of a hundred, so in one request when there are fewer than a hundred chunks;
  vector \<open>j\<close> of the result is the collaborator's vector for text \<open>j\<close>; chunk \<open>i\<close> is
  given what \<^verbatim>\<open>cosineSimilarity\<close> computes for vector \<open>0\<close> and vector \<open>i + 1\<close>, a finite
  number between \<open>-1\<close> and \<open>1\<close> within \<open>2 ^ - 34\<close> of the exact similarity; and the chunks
  are returned in non-increasing order of that number, chunks of equal similarity in their
  input order. No other arrangement of the scored chunks is in that order and keeps equal
  similarities in input order, so the result does not depend on how the engine sorts.
\<close>

theorem rerank_sorts_by_similarity:
  assumes "embedsWell run n" and "n \<le> 1024"
  shows "\<exists>vs ss. embedLoop run (q # map chunk_text cs) 0 [] = Inr vs
           \<and> length vs = Suc (length cs)
           \<and> (\<forall>j<Suc (length cs).
                 \<exists>d. run (j div EMBEDDING_BATCH_SIZE)
                        (batchOf (q # map chunk_text cs) (j div EMBEDDING_BATCH_SIZE)) = AiData d
                      \<and> vs ! j = d ! (j mod EMBEDDING_BATCH_SIZE))
           \<and> (length cs < EMBEDDING_BATCH_SIZE \<longrightarrow> run 0 (q # map chunk_text cs) = AiData vs)
           \<and> length ss = length cs
           \<and> (\<forall>i<length cs.
                 cosineSimilarity (Some (vs ! 0)) (Some (vs ! Suc i)) = Inr (Num (ss ! i))
                 \<and> - 1 \<le> ss ! i \<and> ss ! i \<le> 1
                 \<and> \<bar>ss ! i - cosine (vs ! 0) (vs ! Suc i)\<bar> \<le> 1 / 2 ^ 34)
           \<and> mset (rerankChunks q cs run) = mset (map2 scored cs (map Num ss))
           \<and> sorted_wrt sim_ge (rerankChunks q cs run)
           \<and> (\<forall>s. filter (\<lambda>r. sim r = s) (rerankChunks q cs run)
                    = filter (\<lambda>r. sim r = s) (map2 scored cs (map Num ss)))
           \<and> (\<forall>ys. sorted_wrt sim_ge ys
                    \<and> (\<forall>s. filter (\<lambda>r. sim r = s) ys
                             = filter (\<lambda>r. sim r = s) (map2 scored cs (map Num ss)))
                    \<longrightarrow> ys = rerankChunks q cs run)"
proof -
  let ?texts = "q # map chunk_text cs"
  let ?B = EMBEDDING_BATCH_SIZE
  let ?cmp = "\<lambda>a b. jssub (sim b) (sim a)"
  from embedLoop_parallel[OF embedsWell_answers[OF assms(1)], of ?texts] obtain vs where
    e: "embedLoop run ?texts 0 [] = Inr vs" and l: "length vs = Suc (length cs)" and
    el: "\<And>j. j < Suc (length cs) \<Longrightarrow>
           \<exists>d. run (j div ?B) (batchOf ?texts (j div ?B)) = AiData d
                      \<and> batchOf ?texts (j div ?B) \<noteq> []
                      \<and> length (batchOf ?texts (j div ?B)) \<le> ?B
                      \<and> length d = length (batchOf ?texts (j div ?B))
                      \<and> j mod ?B < length d
                      \<and> vs ! j = d ! (j mod ?B)"
    by auto
  have dims: "length (vs ! j) = n \<and> (\<forall>x\<in>set (vs ! j). \<bar>x\<bar> \<le> 1)" if "j < Suc (length cs)" for j
  proof -
    from el[OF that] obtain d where d: "run (j div ?B) (batchOf ?texts (j div ?B)) = AiData d"
      "batchOf ?texts (j div ?B) \<noteq> []" "length (batchOf ?texts (j div ?B)) \<le> ?B"
      "j mod ?B < length d" "vs ! j = d ! (j mod ?B)" by blast
    from assms(1) d(2,3) obtain d' where "run (j div ?B) (batchOf ?texts (j div ?B)) = AiData d'"
      "\<forall>v\<in>set d'. length v = n \<and> (\<forall>x\<in>set v. \<bar>x\<bar> \<le> 1)" unfolding embedsWell_def by blast
    with d(1) have "\<forall>v\<in>set d. length v = n \<and> (\<forall>x\<in>set v. \<bar>x\<bar> \<le> 1)" by simp
    with d(5) nth_mem [OF d(4)] show ?thesis by auto
  qed
  have one: "run 0 ?texts = AiData vs" if "length cs < ?B"
  proof -
    from that have le: "length ?texts \<le> ?B" by simp
    with assms(1) obtain d where d: "run 0 ?texts = AiData d"
      unfolding embedsWell_def by (metis list.distinct(1))
    have "embedLoop run ?texts 0 [] = Inr d"
      by (rule embedLoop_one_batch [of ?texts run d]) (use le d in simp_all)
    with e have "vs = d" by simp
    with d show ?thesis by simp
  qed
  define ss where "ss = map (\<lambda>i. case cosineSimilarity (Some (vs ! 0)) (Some (vs ! Suc i)) of
                                    Inr (Num s) \<Rightarrow> s | _ \<Rightarrow> 0) [0..<length cs]"
  have ls: "length ss = length cs" by (simp add: ss_def)
  have val: "cosineSimilarity (Some (vs ! 0)) (Some (vs ! Suc i)) = Inr (Num (ss ! i))
             \<and> - 1 \<le> ss ! i \<and> ss ! i \<le> 1
             \<and> \<bar>ss ! i - cosine (vs ! 0) (vs ! Suc i)\<bar> \<le> 1 / 2 ^ 34
             \<and> onGrid (ss ! i)" if i: "i < length cs" for i
  proof -
    from dims [of 0] have d0: "length (vs ! 0) = n" "\<forall>x\<in>set (vs ! 0). \<bar>x\<bar> \<le> 1" by simp_all
    from dims [of "Suc i"] i have di: "length (vs ! Suc i) = n" "\<forall>x\<in>set (vs ! Suc i). \<bar>x\<bar> \<le> 1"
      by simp_all
    have "length (vs ! 0) = length (vs ! Suc i)" "length (vs ! 0) \<le> 1024"
      using d0(1) di(1) assms(2) by simp_all
    from cosineSimilarity_facts [OF this d0(2) di(2)] obtain s where
      s: "cosineSimilarity (Some (vs ! 0)) (Some (vs ! Suc i)) = Inr (Num s)" "- 1 \<le> s" "s \<le> 1"
         "\<bar>s - cosine (vs ! 0) (vs ! Suc i)\<bar> \<le> 1 / 2 ^ 34" "onGrid s" by blast
    from s(1) i have "ss ! i = s" by (simp add: ss_def)
    with s show ?thesis by simp
  qed
  have c: "\<forall>j<length cs. cosineSimilarity (Some (vs ! 0)) (Some (vs ! Suc j)) = Inr (map Num ss ! j)"
    using val ls by simp
  have r: "rerankChunks q cs run = js_sort ?cmp (map2 scored cs (map Num ss))"
    by (rule rerankChunks_success [OF e l _ c]) (simp add: ls)
  have nums: "\<forall>y\<in>set (map2 scored cs (map Num ss)). \<exists>v. sim y = Num v \<and> onGrid v"
  proof
    fix y assume "y \<in> set (map2 scored cs (map Num ss))"
    then obtain i where i: "i < length cs" and y: "y = scored (cs ! i) (Num (ss ! i))"
      using ls by (auto simp: in_set_conv_nth)
    from val [OF i] y show "\<exists>v. sim y = Num v \<and> onGrid v" by simp
  qed
  have s: "sorted_wrt sim_ge (rerankChunks q cs run)"
    unfolding r by (rule sorted_js_sort [OF nums])
  have m: "mset (rerankChunks q cs run) = mset (map2 scored cs (map Num ss))"
    unfolding r by (rule mset_js_sort)
  have st: "\<forall>s. filter (\<lambda>r. sim r = s) (rerankChunks q cs run)
                    = filter (\<lambda>r. sim r = s) (map2 scored cs (map Num ss))"
    unfolding r using stable_js_sort [OF nums] by blast
  have p: "\<forall>j<Suc (length cs). \<exists>d. run (j div ?B) (batchOf ?texts (j div ?B)) = AiData d
                      \<and> vs ! j = d ! (j mod ?B)"
    using el by blast
  have o: "length cs < ?B \<longrightarrow> run 0 ?texts = AiData vs" using one by blast
  have v: "\<forall>i<length cs.
                 cosineSimilarity (Some (vs ! 0)) (Some (vs ! Suc i)) = Inr (Num (ss ! i))
                 \<and> - 1 \<le> ss ! i \<and> ss ! i \<le> 1
                 \<and> \<bar>ss ! i - cosine (vs ! 0) (vs ! Suc i)\<bar> \<le> 1 / 2 ^ 34"
    using val by blast
  have uq: "\<forall>ys. sorted_wrt sim_ge ys
                    \<and> (\<forall>s. filter (\<lambda>r. sim r = s) ys
                             = filter (\<lambda>r. sim r = s) (map2 scored cs (map Num ss)))
                    \<longrightarrow> ys = rerankChunks q cs run"
  proof (intro allI impI)
    fix ys
    assume a: "sorted_wrt sim_ge ys
                    \<and> (\<forall>s. filter (\<lambda>r. sim r = s) ys
                             = filter (\<lambda>r. sim r = s) (map2 scored cs (map Num ss)))"
    then have "\<forall>s. filter (\<lambda>r. sim r = s) ys = filter (\<lambda>r. sim r = s) (rerankChunks q cs run)"
      using st by simp
    with a s show "ys = rerankChunks q cs run" by (intro unique_stable_order) simp_all
  qed
  show ?thesis
    by (rule exI[of _ vs], rule exI[of _ ss]) (intro conjI e l p o ls v m s st uq)
qed

theorem rerank_sorts_by_similarity_witness:
  "embedsWell axisAI 2 \<and> (2::nat) \<le> 1024
   \<and> sorted_wrt sim_ge (rerankChunks (lit ''q'') plainChunks axisAI)"
proof -
  have h: "embedsWell axisAI 2" by (auto simp: embedsWell_def axisAI_def)
  have n: "(2::nat) \<le> 1024" by simp
  from rerank_sorts_by_similarity[OF h n, of "lit ''q''" plainChunks]
  have "sorted_wrt sim_ge (rerankChunks (lit ''q'') plainChunks axisAI)" by blast
  with h show ?thesis by simp
qed

section \<open>The fallback of the reranker\<close>

lemma rerankChunks_fallback_throws:
  assumes "embeddingThrows run (q # map chunk_text cs)"
  shows "rerankChunks q cs run = map unscored cs"
proof -
  from assms obtain k where k: "EMBEDDING_BATCH_SIZE * k < length (q # map chunk_text cs)"
    "run k (batchOf (q # map chunk_text cs) k) = AiThrows
     \<or> run k (batchOf (q # map chunk_text cs) k) = AiNoData"
    unfolding embeddingThrows_def by blast
  from embedLoop_fails[of k "q # map chunk_text cs" run 0 "[]"] k obtain err where
    "embedLoop run (q # map chunk_text cs) 0 [] = Inl err" by auto
  then show ?thesis by (simp add: rerankChunks_def)
qed

text \<open>
  C5, as the code has it. The texts are sent in batches of a hundred, so a hundred chunks
  and the question take two requests: a collaborator that answers its first call with a
  vector for each of the hundred texts it was given, and is down at the second call, makes
  the embedding step fail. And a collaborator may succeed with vectors whose similarity
  is not a number: the chunks then come back with \<^verbatim>\<open>NaN\<close> for a similarity, which is no
  order by similarity.
\<close>

theorem second_request_counterexample:
  "length hundredChunks = MAX_CHUNKS_ACCEPTED
   \<and> length (batchOf (lit ''q'' # map chunk_text hundredChunks) 0) = 100
   \<and> secondCallDownAI 0 (batchOf (lit ''q'' # map chunk_text hundredChunks) 0)
       = AiData (replicate 100 [1, 0])
   \<and> batchOf (lit ''q'' # map chunk_text hundredChunks) 1 = [lit ''alpha'']
   \<and> secondCallDownAI 1 (batchOf (lit ''q'' # map chunk_text hundredChunks) 1) = AiThrows
   \<and> rerankChunks (lit ''q'') hundredChunks secondCallDownAI = map unscored hundredChunks
   \<and> hugeAI 0 (lit ''q'' # map chunk_text plainChunks) = AiData [[huge], [huge], [huge]]
   \<and> rerankChunks (lit ''q'') plainChunks hugeAI = map (\<lambda>c. scored c NaN) plainChunks
   \<and> \<not> sorted_wrt sim_ge (rerankChunks (lit ''q'') plainChunks hugeAI)"
proof -
  let ?texts = "lit ''q'' # map chunk_text hundredChunks"
  have l: "length hundredChunks = MAX_CHUNKS_ACCEPTED"
    by (simp add: hundredChunks_def MAX_CHUNKS_ACCEPTED_def)
  have b0: "length (batchOf ?texts 0) = 100"
    by (simp add: batchOf_def slice_length hundredChunks_def EMBEDDING_BATCH_SIZE_def)
  have r0: "secondCallDownAI 0 (batchOf ?texts 0) = AiData (replicate 100 [1, 0])"
    unfolding secondCallDownAI_def using b0 by (simp add: map_replicate_const)
  have b1: "batchOf ?texts 1 = [lit ''alpha'']"
    by (simp add: batchOf_def slice_def hundredChunks_def EMBEDDING_BATCH_SIZE_def)
  have r1: "secondCallDownAI 1 (batchOf ?texts 1) = AiThrows"
    by (simp add: secondCallDownAI_def)
  have "embeddingThrows secondCallDownAI ?texts"
    unfolding embeddingThrows_def
    by (rule exI [of _ 1])
       (simp add: secondCallDownAI_def hundredChunks_def EMBEDDING_BATCH_SIZE_def)
  then have f: "rerankChunks (lit ''q'') hundredChunks secondCallDownAI = map unscored hundredChunks"
    by (rule rerankChunks_fallback_throws)
  let ?t2 = "lit ''q'' # map chunk_text plainChunks"
  have h0: "hugeAI 0 ?t2 = AiData [[huge], [huge], [huge]]"
    by (simp add: hugeAI_def plainChunks_def)
  have e: "embedLoop hugeAI ?t2 0 [] = Inr [[huge], [huge], [huge]]"
    by (rule embedLoop_one_batch)
       (simp_all add: plainChunks_def EMBEDDING_BATCH_SIZE_def hugeAI_def)
  have n: "rerankChunks (lit ''q'') plainChunks hugeAI = map (\<lambda>c. scored c NaN) plainChunks"
    unfolding rerankChunks_def Let_def e
    by (simp add: plainChunks_def index_def slice_def cosine_huge js_sort_def jssub_def)
  have u: "\<not> sorted_wrt sim_ge (rerankChunks (lit ''q'') plainChunks hugeAI)"
    unfolding n by (simp add: plainChunks_def sim_ge_def)
  show ?thesis by (intro conjI l b0 r0 b1 r1 f h0 n u)
qed

lemma rerankChunks_fallback_few:
  assumes e: "embedLoop run (q # map chunk_text cs) 0 [] = Inr vs"
    and f: "tooFewVectors vs cs"
  shows "rerankChunks q cs run = map unscored cs"
proof (cases "cs = []")
  case True
  with e show ?thesis by (simp add: rerankChunks_def js_sort_def)
next
  case False
  have "\<exists>j e'. j < length cs \<and> cosineSimilarity (index vs 0) (index (slice vs 1 (length vs)) (0 + j)) = Inl e'"
  proof (cases "vs = []")
    case True
    with False show ?thesis
      by (intro exI[of _ 0] exI[of _ TypeError]) (simp add: index_def cosineSimilarity_def)
  next
    case nonempty: False
    with f have q0: "vs ! 0 \<noteq> []" and le: "length vs \<le> length cs"
      by (auto simp: tooFewVectors_def)
    let ?j = "length vs - 1"
    have j: "?j < length cs" using le nonempty by (cases vs) auto
    have "index vs (Suc ?j) = None" using nonempty by (simp add: index_def)
    moreover have "index vs 0 = Some (vs ! 0)" using nonempty by (simp add: index_def)
    ultimately have "cosineSimilarity (index vs 0) (index (slice vs 1 (length vs)) (0 + ?j)) = Inl TypeError"
      unfolding index_drop1 using q0 by (simp add: cosineSimilarity_def)
    with j show ?thesis by blast
  qed
  then obtain j e' where "j < length cs"
    "cosineSimilarity (index vs 0) (index (slice vs 1 (length vs)) (0 + j)) = Inl e'" by blast
  from scoreChunks_throws[OF this] obtain e'' where
    "scoreChunks (index vs 0) (slice vs 1 (length vs)) 0 cs = Inl e''" by blast
  with e show ?thesis by (simp add: rerankChunks_def)
qed

lemma askClaude_answer:
  assumes "fetchedAnswer (fetch (claudeRequest key q best)) = Some a"
  shows "askClaude key q best fetch = jsonResponse (AnswerBody a (map chunk_id best)) 200"
  using assms
  by (auto simp: askClaude_def fetchedAnswer_def claudeRequest_def falsy_def
      split: fetch_result.splits fetch_body.splits option.splits sum.splits bool.splits if_splits)

lemma chunk_id_unscored [simp]: "chunk_id (unscored c) = chunk_id c"
  by (simp add: unscored_def)

lemma slice0: "slice xs 0 n = take n xs"
  by (simp add: slice_def)

text \<open>
  C1, amended. When \<^verbatim>\<open>env.AI\<close> is not configured, or a batch call throws or returns a
  result whose data cannot be spread, or the calls together return too few vectors (so that
  reading the query vector or a candidate's vector raises an exception), the reranking
  path keeps the sanitised chunks in their input order and without similarities; the
  handler goes on to the text-generation service with the first 25 of them, and when that
  service answers the request is answered with status 200.
\<close>

theorem embedding_failure_falls_back:
  assumes "AI e = None
           \<or> (\<exists>run. AI e = Some run
                 \<and> (embeddingThrows run (q # map chunk_text sc)
                     \<or> (\<exists>vs. embedLoop run (q # map chunk_text sc) 0 [] = Inr vs
                              \<and> tooFewVectors vs sc)))"
  shows "(\<forall>run. AI e = Some run \<longrightarrow> rerankChunks q sc run = map unscored sc)
         \<and> bestChunks e q sc = slice (map unscored sc) 0 RERANK_TOP_N
         \<and> (\<forall>body cs key fetch.
               validRequest body q cs \<and> sanitizeChunks cs = sc
               \<and> ANTHROPIC_API_KEY e = Some key \<and> key \<noteq> [] \<longrightarrow>
               handleAsk (Inr body) e fetch
                 = askClaude key q (slice (map unscored sc) 0 RERANK_TOP_N) fetch
               \<and> (\<forall>a. fetchedAnswer
                          (fetch (claudeRequest key q (slice (map unscored sc) 0 RERANK_TOP_N)))
                        = Some a \<longrightarrow>
                       handleAsk (Inr body) e fetch
                         = jsonResponse
                             (AnswerBody a (map chunk_id (slice sc 0 RERANK_TOP_N))) 200))"
proof -
  have r: "rerankChunks q sc run = map unscored sc" if "AI e = Some run" for run
    using assms that rerankChunks_fallback_throws[of run q sc]
      rerankChunks_fallback_few[of run q sc] by auto
  have b: "bestChunks e q sc = slice (map unscored sc) 0 RERANK_TOP_N"
    using r by (simp add: bestChunks_def split: option.splits)
  have ids: "map chunk_id (slice (map unscored sc) 0 RERANK_TOP_N) = map chunk_id (slice sc 0 RERANK_TOP_N)"
    by (simp add: slice0 take_map comp_def)
  have h: "handleAsk (Inr body) e fetch
                 = askClaude key q (slice (map unscored sc) 0 RERANK_TOP_N) fetch
               \<and> (\<forall>a. fetchedAnswer
                          (fetch (claudeRequest key q (slice (map unscored sc) 0 RERANK_TOP_N)))
                        = Some a \<longrightarrow>
                       handleAsk (Inr body) e fetch
                         = jsonResponse
                             (AnswerBody a (map chunk_id (slice sc 0 RERANK_TOP_N))) 200)"
    if v: "validRequest body q cs" "sanitizeChunks cs = sc" "ANTHROPIC_API_KEY e = Some key" "key \<noteq> []"
    for body cs key fetch
  proof -
    from handleAsk_valid[OF v(1,3,4), of fetch] v(2) b
    have 1: "handleAsk (Inr body) e fetch
             = askClaude key q (slice (map unscored sc) 0 RERANK_TOP_N) fetch" by simp
    show ?thesis using 1 askClaude_answer[of fetch key q "slice (map unscored sc) 0 RERANK_TOP_N"] ids
      by simp
  qed
  from r b h show ?thesis by blast
qed

lemma sanitize_demo: "sanitizeChunks [chunkA, chunkNoText, chunkB] = plainChunks"
  by (simp add: sanitizeChunks_def sanitizeChunk_def validChunk_def chunkA_def chunkB_def
      chunkNoText_def plainChunks_def isString_def the_str_def slice_def lit_def
      MAX_CHUNK_TEXT_LENGTH_def)

theorem embedding_failure_falls_back_witness:
  "handleAsk (Inr (askRequest (lit ''May I build?'') [chunkA, chunkNoText, chunkB]))
     (envWith (Some downAI)) answeringFetch
   = jsonResponse (AnswerBody (JStr (lit ''ok'')) [lit ''A.1'', lit ''B.2'']) 200"
proof -
  let ?q = "lit ''May I build?''"
  let ?body = "askRequest ?q [chunkA, chunkNoText, chunkB]"
  have a: "AI (envWith (Some downAI)) = None
           \<or> (\<exists>run. AI (envWith (Some downAI)) = Some run
                 \<and> (embeddingThrows run (?q # map chunk_text plainChunks)
                     \<or> (\<exists>vs. embedLoop run (?q # map chunk_text plainChunks) 0 [] = Inr vs
                              \<and> tooFewVectors vs plainChunks)))"
  proof -
    have "embeddingThrows downAI (?q # map chunk_text plainChunks)"
      unfolding embeddingThrows_def by (intro exI[of _ 0]) (simp add: downAI_def)
    then show ?thesis by (simp add: envWith_def)
  qed
  have v: "validRequest ?body ?q [chunkA, chunkNoText, chunkB]"
    by (simp add: validRequest_def wellSized_def askRequest_def lit_def MAX_QUESTION_LENGTH_def
        MAX_CHUNKS_ACCEPTED_def validChunk_def chunkA_def isString_def)
  have k: "ANTHROPIC_API_KEY (envWith (Some downAI)) = Some (lit ''key'') \<and> lit ''key'' \<noteq> []"
    by (simp add: envWith_def lit_def)
  have f: "fetchedAnswer (answeringFetch (claudeRequest (lit ''key'') ?q (slice (map unscored plainChunks) 0 RERANK_TOP_N)))
           = Some (JStr (lit ''ok''))"
    by (simp add: fetchedAnswer_def answeringFetch_def answerOf_def index_def lit_def)
  have ids: "map chunk_id (slice plainChunks 0 RERANK_TOP_N) = [lit ''A.1'', lit ''B.2'']"
    by (simp add: plainChunks_def slice_def RERANK_TOP_N_def)
  from embedding_failure_falls_back[OF a] v sanitize_demo k f
  have "handleAsk (Inr ?body) (envWith (Some downAI)) answeringFetch
        = jsonResponse (AnswerBody (JStr (lit ''ok'')) (map chunk_id (slice plainChunks 0 RERANK_TOP_N))) 200"
    by blast
  with ids show ?thesis by simp
qed

text \<open>
  C1, as the code has it. A collaborator that answers the single batch of three texts with
  four vectors returns a malformed result (the count is wrong), but nothing throws: the
  chunks are scored with the first three vectors and come back reordered.
\<close>

theorem surplus_vectors_counterexample:
  "surplusAI 0 (lit ''q'' # map chunk_text plainChunks) = AiData [[1, 0], [0, 1], [1, 0], [0, 0]]
   \<and> length (lit ''q'' # map chunk_text plainChunks) = 3
   \<and> map chunk_id (map unscored plainChunks) = [lit ''A.1'', lit ''B.2'']
   \<and> map chunk_id (rerankChunks (lit ''q'') plainChunks surplusAI) = [lit ''B.2'', lit ''A.1'']"
proof -
  let ?texts = "lit ''q'' # map chunk_text plainChunks"
  have len: "length ?texts = 3" by (simp add: plainChunks_def)
  have e: "embedLoop surplusAI ?texts 0 [] = Inr [[1, 0], [0, 1], [1, 0], [0, 0]]"
    by (rule embedLoop_one_batch)
       (simp_all add: plainChunks_def EMBEDDING_BATCH_SIZE_def surplusAI_def)
  have h: "length [1, 0 :: real] = length [0, 1 :: real]" "length [1, 0 :: real] \<le> 1024"
    "\<forall>x\<in>set [1, 0 :: real]. \<bar>x\<bar> \<le> 1" "\<forall>x\<in>set [0, 1 :: real]. \<bar>x\<bar> \<le> 1"
    "length [1, 0 :: real] = length [1, 0 :: real]" by simp_all
  from cosineSimilarity_facts [OF h(1) h(2) h(3) h(4)] obtain s1 where
    c1: "cosineSimilarity (Some [1, 0]) (Some [0, 1]) = Inr (Num s1)" and
    a1: "\<bar>s1 - cosine [1, 0] [0, 1]\<bar> \<le> 1 / 2 ^ 34" and g1: "onGrid s1" by blast
  from cosineSimilarity_facts [OF h(5) h(2) h(3) h(3)] obtain s2 where
    c2: "cosineSimilarity (Some [1, 0]) (Some [1, 0]) = Inr (Num s2)" and
    a2: "\<bar>s2 - cosine [1, 0] [1, 0]\<bar> \<le> 1 / 2 ^ 34" and g2: "onGrid s2" by blast
  define c where "c = cosine [1, 0] [1, 0]"
  have c9: "9 / 10 \<le> c" unfolding c_def cosine_10_10 by simp
  have "c - s2 \<le> \<bar>s2 - c\<bar>" by simp
  also have "\<dots> \<le> 1 / 2 ^ 34" using a2 by (simp only: c_def)
  also have "\<dots> \<le> 1 / 10" by simp
  finally have "c - s2 \<le> 1 / 10" .
  with c9 have "1 / 2 \<le> s2" by simp
  moreover from a1 have "s1 \<le> 1 / 2 ^ 34" unfolding cosine_10_01 by simp
  ultimately have "s1 < s2" by simp
  then have p: "positive (jssub (Num s2) (Num s1))" by (simp add: positive_jssub [OF g1 g2])
  have r: "map chunk_id (rerankChunks (lit ''q'') plainChunks surplusAI) = [lit ''B.2'', lit ''A.1'']"
    unfolding rerankChunks_def Let_def e
    by (simp add: plainChunks_def index_def slice_def c1 c2 js_sort_def p) (simp add: scored_def)
  show ?thesis using len r
    by (simp add: surplusAI_def) (simp add: plainChunks_def)
qed

section \<open>The embedding route and the loop\<close>

lemma sanitizeTexts_eq:
  "sanitizeTexts ts =
     map (\<lambda>t. slice (the_str (Some t)) 0 MAX_EMBED_TEXT_LENGTH) (filter nonEmptyString ts)"
proof -
  let ?f = "\<lambda>t. case t of JStr s \<Rightarrow> slice s 0 MAX_EMBED_TEXT_LENGTH | _ \<Rightarrow> []"
  have p: "(?f t \<noteq> []) = nonEmptyString t" for t
    by (cases t) (simp_all add: nonEmptyString_def slice_def MAX_EMBED_TEXT_LENGTH_def)
  have g: "?f t = slice (the_str (Some t)) 0 MAX_EMBED_TEXT_LENGTH" for t
    by (cases t) (simp_all add: the_str_def slice_def)
  have "sanitizeTexts ts = map ?f (filter (\<lambda>t. ?f t \<noteq> []) ts)"
    by (simp add: sanitizeTexts_def filter_map comp_def)
  also have "\<dots> = map ?f (filter nonEmptyString ts)"
    by (simp only: p)
  also have "\<dots> = map (\<lambda>t. slice (the_str (Some t)) 0 MAX_EMBED_TEXT_LENGTH) (filter nonEmptyString ts)"
    by (simp only: g)
  finally show ?thesis .
qed

lemma handleEmbed_ok:
  assumes "getProp body (lit ''texts'') = Some (JArr ts)" and "ts \<noteq> []"
    and "length ts \<le> MAX_EMBED_TEXTS" and "sanitizeTexts ts \<noteq> []" and "AI e = Some run"
    and "embedLoop run (sanitizeTexts ts) 0 [] = Inr vs"
  shows "handleEmbed (Inr body) e = jsonResponse (EmbedBody vs) 200"
proof -
  from assms(1) have nn: "body \<noteq> JNull" by (rule getProp_not_null)
  show ?thesis using nn assms by (simp add: handleEmbed_def Let_def)
qed

text \<open>
  C3, amended. For a collaborator that returns one vector per text of a batch, the loop
  returns one vector for every text it is given, in the order of the texts, from batches
  of at most 100 texts: vector \<open>j\<close> is vector \<open>j mod 100\<close> of the answer to batch
  \<open>j div 100\<close>. The route \<^verbatim>\<open>/embed\<close> gives the loop the texts of the request that are
  non-empty strings, each cut to 5000 code units, and answers with the vectors of those.
\<close>

theorem embed_parallel_to_sanitized:
  assumes "answersEveryText run"
  shows "(\<exists>vs. embedLoop run texts 0 [] = Inr vs \<and> length vs = length texts
            \<and> (\<forall>j<length texts.
                  \<exists>d. run (j div EMBEDDING_BATCH_SIZE) (batchOf texts (j div EMBEDDING_BATCH_SIZE))
                         = AiData d
                       \<and> length (batchOf texts (j div EMBEDDING_BATCH_SIZE)) \<le> EMBEDDING_BATCH_SIZE
                       \<and> vs ! j = d ! (j mod EMBEDDING_BATCH_SIZE)))
         \<and> (\<forall>body ts e.
               getProp body (lit ''texts'') = Some (JArr ts) \<and> ts \<noteq> []
               \<and> length ts \<le> MAX_EMBED_TEXTS \<and> (\<exists>t\<in>set ts. nonEmptyString t)
               \<and> AI e = Some run \<longrightarrow>
               (\<exists>vs. handleEmbed (Inr body) e = jsonResponse (EmbedBody vs) 200
                     \<and> embedLoop run (sanitizeTexts ts) 0 [] = Inr vs
                     \<and> sanitizeTexts ts
                         = map (\<lambda>t. slice (the_str (Some t)) 0 MAX_EMBED_TEXT_LENGTH)
                             (filter nonEmptyString ts)
                     \<and> length vs = length (filter nonEmptyString ts)))"
proof -
  have loop: "\<exists>vs. embedLoop run texts 0 [] = Inr vs \<and> length vs = length texts
            \<and> (\<forall>j<length texts.
                  \<exists>d. run (j div EMBEDDING_BATCH_SIZE) (batchOf texts (j div EMBEDDING_BATCH_SIZE))
                         = AiData d
                       \<and> length (batchOf texts (j div EMBEDDING_BATCH_SIZE)) \<le> EMBEDDING_BATCH_SIZE
                       \<and> vs ! j = d ! (j mod EMBEDDING_BATCH_SIZE))" for texts
    using embedLoop_parallel[OF assms, of texts] by blast
  have route: "\<exists>vs. handleEmbed (Inr body) e = jsonResponse (EmbedBody vs) 200
                     \<and> embedLoop run (sanitizeTexts ts) 0 [] = Inr vs
                     \<and> sanitizeTexts ts
                         = map (\<lambda>t. slice (the_str (Some t)) 0 MAX_EMBED_TEXT_LENGTH)
                             (filter nonEmptyString ts)
                     \<and> length vs = length (filter nonEmptyString ts)"
    if h: "getProp body (lit ''texts'') = Some (JArr ts)" "ts \<noteq> []"
      "length ts \<le> MAX_EMBED_TEXTS" "\<exists>t\<in>set ts. nonEmptyString t" "AI e = Some run"
    for body ts e
  proof -
    from h(4) have ne: "sanitizeTexts ts \<noteq> []"
      by (simp add: sanitizeTexts_eq filter_empty_conv)
    from loop[of "sanitizeTexts ts"] obtain vs where
      vs: "embedLoop run (sanitizeTexts ts) 0 [] = Inr vs" "length vs = length (sanitizeTexts ts)"
      by blast
    have l: "length vs = length (filter nonEmptyString ts)"
      using vs(2) by (simp add: sanitizeTexts_eq)
    from handleEmbed_ok[OF h(1,2,3) ne h(5) vs(1)] vs(1) l sanitizeTexts_eq[of ts]
    show ?thesis by blast
  qed
  from loop route show ?thesis by blast
qed

lemma lengthAI_answers: "answersEveryText lengthAI"
  by (simp add: answersEveryText_def lengthAI_def)

theorem embed_parallel_to_sanitized_witness:
  "answersEveryText lengthAI
   \<and> (\<exists>vs. embedLoop lengthAI [lit ''alpha'', lit ''be''] 0 [] = Inr vs \<and> length vs = 2)"
  using embed_parallel_to_sanitized[OF lengthAI_answers, of "[lit ''alpha'', lit ''be'']"]
    lengthAI_answers by auto

text \<open>
  C3, as the code has it. The route \<^verbatim>\<open>/embed\<close> answers a request of two texts, the
  second one empty, with one vector, though the collaborator keeps its contract.
\<close>

theorem embed_drops_empty_text_counterexample:
  "answersEveryText lengthAI
   \<and> handleEmbed (Inr (embedRequest [JStr (lit ''alpha''), JStr []])) (envWith (Some lengthAI))
       = jsonResponse (EmbedBody [[5, 1]]) 200"
proof -
  have s: "sanitizeTexts [JStr (lit ''alpha''), JStr []] = [lit ''alpha'']"
    by (simp add: sanitizeTexts_def slice_def lit_def MAX_EMBED_TEXT_LENGTH_def)
  have e: "embedLoop lengthAI [lit ''alpha''] 0 [] = Inr [[5, 1]]"
    by (rule embedLoop_one_batch) (simp_all add: EMBEDDING_BATCH_SIZE_def lengthAI_def lit_def)
  have "handleEmbed (Inr (embedRequest [JStr (lit ''alpha''), JStr []])) (envWith (Some lengthAI))
       = jsonResponse (EmbedBody [[5, 1]]) 200"
    by (rule handleEmbed_ok[where ts = "[JStr (lit ''alpha''), JStr []]" and run = lengthAI])
       (simp_all add: embedRequest_def MAX_EMBED_TEXTS_def s e envWith_def)
  with lengthAI_answers show ?thesis by simp
qed

section \<open>The chunks handed to the text-generation service\<close>









lemma askClaude_200:
  "(status (askClaude key q best fetch) = 200) = (fetchedAnswer (fetch (claudeRequest key q best)) \<noteq> None)"
proof (cases "fetch (claudeRequest key q best)")
  case FetchThrows
  then show ?thesis
    by (simp add: askClaude_def claudeRequest_def fetchedAnswer_def internalError_def jsonResponse_def)
next
  case (FetchResponse ok fb)
  show ?thesis
  proof (cases fb)
    case BodyUnreadable
    with FetchResponse show ?thesis
      by (simp add: askClaude_def claudeRequest_def fetchedAnswer_def internalError_def jsonResponse_def)
  next
    case (BodyText t)
    with FetchResponse show ?thesis
      by (cases t; cases ok)
         (auto simp: askClaude_def claudeRequest_def fetchedAnswer_def internalError_def
            jsonResponse_def falsy_def split: sum.splits option.splits)
  qed
qed






lemma validChunk_chunkA: "validChunk chunkA"
  by (simp add: validChunk_def chunkA_def isString_def lit_def)


section \<open>Validation and downstream failures\<close>

lemma status_askClaude: "status (askClaude key q best fetch) \<in> {200, 500, 502}"
proof (cases "fetch \<lparr>x_api_key = key, user_content = userMessage q best\<rparr>")
  case FetchThrows
  then show ?thesis by (simp add: askClaude_def internalError_def jsonResponse_def)
next
  case (FetchResponse ok fb)
  show ?thesis
  proof (cases fb)
    case BodyUnreadable
    with FetchResponse show ?thesis
      by (simp add: askClaude_def internalError_def jsonResponse_def)
  next
    case (BodyText t)
    with FetchResponse show ?thesis
      by (cases t; cases ok)
         (auto simp: askClaude_def internalError_def jsonResponse_def split: sum.splits)
  qed
qed

lemma status_askClaude_not_400: "status (askClaude key q best fetch) \<noteq> 400"
  using status_askClaude[of key q best fetch] by auto

lemma validChunk_iff:
  "validChunk c = (\<exists>kvs i t. c = JObj kvs \<and> getProp c (lit ''id'') = Some (JStr i)
                      \<and> getProp c (lit ''text'') = Some (JStr t))"
  by (cases c) (auto simp: validChunk_def isString_def split: option.splits json.splits)

lemma handleAsk_wellSized:
  assumes "wellSized body q cs"
  shows "handleAsk (Inr body) e fetch =
           (if sanitizeChunks cs = [] then
              jsonResponse (ErrorBody (lit ''No valid chunks provided'')) 400
            else (case ANTHROPIC_API_KEY e of
                    None \<Rightarrow> jsonResponse (ErrorBody (lit ''API key not configured'')) 500
                  | Some apiKey \<Rightarrow>
                      if apiKey = [] then
                        jsonResponse (ErrorBody (lit ''API key not configured'')) 500
                      else askClaude apiKey q (bestChunks e q (sanitizeChunks cs)) fetch))"
proof -
  from assms have q: "getProp body (lit ''question'') = Some (JStr q)" "q \<noteq> []"
      "length q \<le> MAX_QUESTION_LENGTH"
    and cs: "getProp body (lit ''chunks'') = Some (JArr cs)" "cs \<noteq> []"
      "length cs \<le> MAX_CHUNKS_ACCEPTED"
    by (auto simp: wellSized_def)
  from q(1) have nn: "body \<noteq> JNull" by (rule getProp_not_null)
  show ?thesis
    using nn q cs
    by (simp add: handleAsk_def handleAskBody_def falsy_def isString_def the_str_def Let_def
        split: option.splits)
qed

lemma status_wellSized:
  assumes "wellSized body q cs"
  shows "(status (handleAsk (Inr body) e fetch) = 400) = (\<forall>c\<in>set cs. \<not> validChunk c)"
proof (cases "sanitizeChunks cs = []")
  case True
  then show ?thesis
    using sanitizeChunks_empty[of cs]
    by (simp add: handleAsk_wellSized[OF assms] jsonResponse_def)
next
  case False
  then have "status (handleAsk (Inr body) e fetch) \<noteq> 400"
    using status_askClaude_not_400
    by (simp add: handleAsk_wellSized[OF assms] jsonResponse_def split: option.splits)
  with False show ?thesis using sanitizeChunks_empty[of cs] by simp
qed

text \<open>
  C8. A candidate is kept exactly when it is an object with a string \<^verbatim>\<open>id\<close> and a string
  \<^verbatim>\<open>text\<close>; the others are dropped and the kept ones are sanitised and processed. For a
  request whose question and chunk array pass the size guards, the answer is a validation
  error (status 400) exactly when no candidate is kept; otherwise the handler goes on with
  the kept candidates.
\<close>

theorem invalid_chunks_dropped:
  assumes "wellSized body q cs"
  shows "(\<forall>c. validChunk c = (\<exists>kvs i t. c = JObj kvs \<and> getProp c (lit ''id'') = Some (JStr i)
                                  \<and> getProp c (lit ''text'') = Some (JStr t)))
         \<and> sanitizeChunks cs = map sanitizeChunk (filter validChunk cs)
         \<and> (status (handleAsk (Inr body) e fetch) = 400) = (\<forall>c\<in>set cs. \<not> validChunk c)
         \<and> ((\<forall>c\<in>set cs. \<not> validChunk c) \<longrightarrow>
               handleAsk (Inr body) e fetch
                 = jsonResponse (ErrorBody (lit ''No valid chunks provided'')) 400)
         \<and> (\<forall>key. (\<exists>c\<in>set cs. validChunk c) \<and> ANTHROPIC_API_KEY e = Some key \<and> key \<noteq> [] \<longrightarrow>
               handleAsk (Inr body) e fetch
                 = askClaude key q
                     (bestChunks e q (map sanitizeChunk (filter validChunk cs))) fetch)"
proof -
  have 1: "\<forall>c. validChunk c = (\<exists>kvs i t. c = JObj kvs \<and> getProp c (lit ''id'') = Some (JStr i)
                                  \<and> getProp c (lit ''text'') = Some (JStr t))"
    using validChunk_iff by blast
  have 2: "sanitizeChunks cs = map sanitizeChunk (filter validChunk cs)"
    by (simp add: sanitizeChunks_def)
  have 3: "(status (handleAsk (Inr body) e fetch) = 400) = (\<forall>c\<in>set cs. \<not> validChunk c)"
    by (rule status_wellSized[OF assms])
  have 4: "(\<forall>c\<in>set cs. \<not> validChunk c) \<longrightarrow>
               handleAsk (Inr body) e fetch
                 = jsonResponse (ErrorBody (lit ''No valid chunks provided'')) 400"
    using sanitizeChunks_empty[of cs] by (simp add: handleAsk_wellSized[OF assms])
  have 5: "\<forall>key. (\<exists>c\<in>set cs. validChunk c) \<and> ANTHROPIC_API_KEY e = Some key \<and> key \<noteq> [] \<longrightarrow>
               handleAsk (Inr body) e fetch
                 = askClaude key q
                     (bestChunks e q (map sanitizeChunk (filter validChunk cs))) fetch"
    using sanitizeChunks_empty[of cs] 2 by (auto simp: handleAsk_wellSized[OF assms])
  show ?thesis by (intro conjI 1 2 3 4 5)
qed

lemma bestChunks_no_AI: "AI e = None \<Longrightarrow> bestChunks e q sc = slice (map unscored sc) 0 RERANK_TOP_N"
  by (simp add: bestChunks_def)

theorem invalid_chunks_dropped_witness:
  "handleAsk (Inr (askRequest (lit ''May I build?'') [chunkA, chunkNoText, chunkB]))
     (envWith None) answeringFetch
   = jsonResponse (AnswerBody (JStr (lit ''ok'')) [lit ''A.1'', lit ''B.2'']) 200
   \<and> status (handleAsk (Inr (askRequest (lit ''May I build?'') [chunkNoText]))
       (envWith None) answeringFetch) = 400"
proof -
  let ?q = "lit ''May I build?''"
  have w1: "wellSized (askRequest ?q [chunkA, chunkNoText, chunkB]) ?q [chunkA, chunkNoText, chunkB]"
    by (simp add: wellSized_def askRequest_def lit_def MAX_QUESTION_LENGTH_def
        MAX_CHUNKS_ACCEPTED_def)
  have w2: "wellSized (askRequest ?q [chunkNoText]) ?q [chunkNoText]"
    by (simp add: wellSized_def askRequest_def lit_def MAX_QUESTION_LENGTH_def
        MAX_CHUNKS_ACCEPTED_def)
  have va: "validChunk chunkA" by (rule validChunk_chunkA)
  have vn: "\<not> validChunk chunkNoText"
    by (simp add: validChunk_def chunkNoText_def isString_def lit_def)
  have k: "ANTHROPIC_API_KEY (envWith None) = Some (lit ''key'') \<and> lit ''key'' \<noteq> []"
    by (simp add: envWith_def lit_def)
  have s: "map sanitizeChunk (filter validChunk [chunkA, chunkNoText, chunkB]) = plainChunks"
    using sanitize_demo by (simp only: sanitizeChunks_def)
  have b: "bestChunks (envWith None) ?q plainChunks = map unscored plainChunks"
    by (simp add: bestChunks_no_AI envWith_def slice0 plainChunks_def RERANK_TOP_N_def)
  have f: "fetchedAnswer (answeringFetch (claudeRequest (lit ''key'') ?q (map unscored plainChunks)))
           = Some (JStr (lit ''ok''))"
    by (simp add: fetchedAnswer_def answeringFetch_def answerOf_def index_def lit_def)
  have ids: "map chunk_id (map unscored plainChunks) = [lit ''A.1'', lit ''B.2'']"
    by (simp add: plainChunks_def)
  from invalid_chunks_dropped[OF w1, of "envWith None" answeringFetch] va k
  have "handleAsk (Inr (askRequest ?q [chunkA, chunkNoText, chunkB])) (envWith None) answeringFetch
        = askClaude (lit ''key'') ?q
            (bestChunks (envWith None) ?q (map sanitizeChunk (filter validChunk [chunkA, chunkNoText, chunkB])))
            answeringFetch"
    by auto
  then have 1: "handleAsk (Inr (askRequest ?q [chunkA, chunkNoText, chunkB])) (envWith None) answeringFetch
        = jsonResponse (AnswerBody (JStr (lit ''ok'')) [lit ''A.1'', lit ''B.2'']) 200"
    using askClaude_answer[of answeringFetch "lit ''key''" ?q "map unscored plainChunks", OF f]
    by (simp only: s b ids)
  from invalid_chunks_dropped[OF w2, of "envWith None" answeringFetch] vn
  have 2: "status (handleAsk (Inr (askRequest ?q [chunkNoText])) (envWith None) answeringFetch) = 400"
    by (simp add: jsonResponse_def)
  from 1 2 show ?thesis by (rule conjI)
qed

lemma handleAsk_validation_failure:
  assumes "body \<noteq> JNull" and "validationFailure body"
  shows "status (handleAsk (Inr body) e fetch) = 400"
proof -
  have f: "status (handleAskBody question chunks e fetch) = 400"
    if "(case question of Some (JStr q) \<Rightarrow> q = [] \<or> length q > MAX_QUESTION_LENGTH | _ \<Rightarrow> True)
        \<or> (case chunks of
              Some (JArr cs) \<Rightarrow>
                cs = [] \<or> length cs > MAX_CHUNKS_ACCEPTED \<or> (\<forall>c\<in>set cs. \<not> validChunk c)
            | _ \<Rightarrow> True)"
    for question chunks
  proof (cases "falsy question \<or> \<not> isString question")
    case True
    then show ?thesis by (simp add: handleAskBody_def jsonResponse_def)
  next
    case False
    then obtain q where q: "question = Some (JStr q)" "q \<noteq> []"
      by (auto simp: falsy_def isString_def split: option.splits json.splits)
    show ?thesis
    proof (cases "\<exists>cs. chunks = Some (JArr cs)")
      case False
      then show ?thesis using q
        by (auto simp: handleAskBody_def jsonResponse_def falsy_def isString_def
            split: option.splits json.splits)
    next
      case True
      then obtain cs where cs: "chunks = Some (JArr cs)" by blast
      from that q cs have "length q > MAX_QUESTION_LENGTH \<or> cs = [] \<or> length cs > MAX_CHUNKS_ACCEPTED
        \<or> sanitizeChunks cs = []" by (auto simp: sanitizeChunks_empty)
      then show ?thesis using q cs
        by (auto simp: handleAskBody_def jsonResponse_def falsy_def isString_def the_str_def)
    qed
  qed
  from assms show ?thesis
    unfolding validationFailure_def by (simp add: handleAsk_def f)
qed

lemma no_failure_valid:
  assumes "\<not> validationFailure body"
  shows "\<exists>q cs. validRequest body q cs"
proof -
  from assms obtain q where q: "getProp body (lit ''question'') = Some (JStr q)" "q \<noteq> []"
    "length q \<le> MAX_QUESTION_LENGTH"
    by (auto simp: validationFailure_def split: option.splits json.splits)
  from assms obtain cs where cs: "getProp body (lit ''chunks'') = Some (JArr cs)" "cs \<noteq> []"
    "length cs \<le> MAX_CHUNKS_ACCEPTED" "\<exists>c\<in>set cs. validChunk c"
    by (auto simp: validationFailure_def split: option.splits json.splits)
  from q cs have "validRequest body q cs" by (simp add: validRequest_def wellSized_def)
  then show ?thesis by blast
qed

lemma handleAsk_no_validation_failure:
  assumes "\<not> validationFailure body"
  shows "status (handleAsk (Inr body) e fetch) \<noteq> 400"
proof -
  from no_failure_valid[OF assms] obtain q cs where v: "validRequest body q cs" by blast
  then have w: "wellSized body q cs" and c: "\<exists>c\<in>set cs. validChunk c"
    by (simp_all add: validRequest_def)
  from status_wellSized[OF w, of e fetch] c show ?thesis by blast
qed

lemma askClaude_refused:
  "fetch (claudeRequest key q best) = FetchResponse False (BodyText t) \<Longrightarrow>
   askClaude key q best fetch
     = jsonResponse (ErrorBody (lit ''AI service temporarily unavailable'')) 502"
  by (simp add: askClaude_def claudeRequest_def)

lemma askClaude_no_answer:
  "fetch (claudeRequest key q best) = FetchResponse True (BodyText (Some data)) \<Longrightarrow>
   answerOf data = Inr a \<Longrightarrow> falsy a \<Longrightarrow>
   askClaude key q best fetch
     = jsonResponse (ErrorBody (lit ''AI service returned an unexpected response'')) 502"
  by (simp add: askClaude_def claudeRequest_def)

lemma answerOf_throws: "(answerOf data = Inl err) = (data = JNull \<and> err = TypeError)"
  by (cases data) (auto simp: answerOf_def split: option.splits json.splits)

lemma askClaude_cases:
  "askClaude key q best fetch =
     (case fetch (claudeRequest key q best) of
        FetchThrows \<Rightarrow> internalError
      | FetchResponse ok fb \<Rightarrow>
          (case fb of
             BodyUnreadable \<Rightarrow> internalError
           | BodyText t \<Rightarrow>
               if \<not> ok then
                 jsonResponse (ErrorBody (lit ''AI service temporarily unavailable'')) 502
               else
                 (case t of
                    None \<Rightarrow> internalError
                  | Some data \<Rightarrow>
                      if data = JNull then internalError
                      else
                        (case fetchedAnswer (fetch (claudeRequest key q best)) of
                           None \<Rightarrow>
                             jsonResponse
                               (ErrorBody (lit ''AI service returned an unexpected response'')) 502
                         | Some a \<Rightarrow> jsonResponse (AnswerBody a (map chunk_id best)) 200))))"
proof (cases "fetch (claudeRequest key q best)")
  case FetchThrows
  then show ?thesis by (simp add: askClaude_def claudeRequest_def)
next
  case (FetchResponse ok fb)
  show ?thesis
  proof (cases fb)
    case BodyUnreadable
    with FetchResponse show ?thesis
      by (cases ok) (simp_all add: askClaude_def claudeRequest_def)
  next
    case (BodyText t)
    show ?thesis
    proof (cases t)
      case None
      with FetchResponse BodyText show ?thesis
        by (cases ok) (simp_all add: askClaude_def claudeRequest_def)
    next
      case (Some data)
      show ?thesis
      proof (cases "answerOf data")
        case (Inl err)
        then have "data = JNull" by (simp add: answerOf_throws)
        with FetchResponse BodyText Some Inl show ?thesis
          by (cases ok) (simp_all add: askClaude_def claudeRequest_def)
      next
        case (Inr a)
        then have nn: "data \<noteq> JNull" using answerOf_throws[of data TypeError] by auto
        with FetchResponse BodyText Some Inr show ?thesis
          by (cases ok; cases a)
             (simp_all add: askClaude_def claudeRequest_def fetchedAnswer_def falsy_def)
      qed
    qed
  qed
qed

text \<open>
  C9, amended. For a body that is not \<^verbatim>\<open>null\<close> the status is 400 exactly when a guard
  fails: the question is missing, not a string, empty or longer than 1000 code units, or
  the chunk array is missing, not an array, empty, longer than 100 or without a valid
  chunk. A request whose body is not JSON, or is \<^verbatim>\<open>null\<close>, is answered with 500
  ``Internal error''. For a request that passes the guards, with an API key: when the call
  of the text-generation service throws, or its reply cannot be read, or is OK but not JSON
  or the JSON \<^verbatim>\<open>null\<close>, the answer is 500 ``Internal error''; when the reply is not OK,
  or is OK without an answer text, the answer is 502; the answer is 200, with the answer
  text and the identifiers of the chunks sent, exactly when the service did answer. So a
  failure of the service is never recovered locally and never reported as 400.
\<close>

theorem failures_are_distinguished:
  shows "(body \<noteq> JNull \<longrightarrow>
            (status (handleAsk (Inr body) e fetch) = 400) = validationFailure body)
         \<and> handleAsk (Inl err) e fetch = jsonResponse (ErrorBody (lit ''Internal error'')) 500
         \<and> handleAsk (Inr JNull) e fetch = jsonResponse (ErrorBody (lit ''Internal error'')) 500
         \<and> (\<forall>q cs key best r.
               validRequest body q cs \<and> ANTHROPIC_API_KEY e = Some key \<and> key \<noteq> []
               \<and> best = bestChunks e q (sanitizeChunks cs)
               \<and> r = fetch \<lparr>x_api_key = key, user_content = userMessage q best\<rparr> \<longrightarrow>
               (r = FetchThrows \<or> (\<exists>ok. r = FetchResponse ok BodyUnreadable)
                  \<or> r = FetchResponse True (BodyText None)
                  \<or> r = FetchResponse True (BodyText (Some JNull)) \<longrightarrow>
                  handleAsk (Inr body) e fetch
                    = jsonResponse (ErrorBody (lit ''Internal error'')) 500)
               \<and> ((\<exists>t. r = FetchResponse False (BodyText t)) \<longrightarrow>
                    handleAsk (Inr body) e fetch
                      = jsonResponse (ErrorBody (lit ''AI service temporarily unavailable'')) 502)
               \<and> ((\<exists>data. r = FetchResponse True (BodyText (Some data)) \<and> data \<noteq> JNull
                             \<and> fetchedAnswer r = None) \<longrightarrow>
                    handleAsk (Inr body) e fetch
                      = jsonResponse
                          (ErrorBody (lit ''AI service returned an unexpected response'')) 502)
               \<and> (\<forall>a. fetchedAnswer r = Some a \<longrightarrow>
                      handleAsk (Inr body) e fetch
                        = jsonResponse (AnswerBody a (map chunk_id best)) 200)
               \<and> (status (handleAsk (Inr body) e fetch) = 200) = (fetchedAnswer r \<noteq> None)
               \<and> (fetchedAnswer r = None \<longrightarrow>
                    status (handleAsk (Inr body) e fetch) = 500
                    \<or> status (handleAsk (Inr body) e fetch) = 502))"
proof -
  have 1: "body \<noteq> JNull \<longrightarrow>
            (status (handleAsk (Inr body) e fetch) = 400) = validationFailure body"
    using handleAsk_validation_failure[of body e fetch]
      handleAsk_no_validation_failure[of body e fetch] by blast
  have 2: "handleAsk (Inl err) e fetch = jsonResponse (ErrorBody (lit ''Internal error'')) 500"
    by (simp add: handleAsk_def internalError_def)
  have 3: "handleAsk (Inr JNull) e fetch = jsonResponse (ErrorBody (lit ''Internal error'')) 500"
    by (simp add: handleAsk_def internalError_def)
  have 4: "(r = FetchThrows \<or> (\<exists>ok. r = FetchResponse ok BodyUnreadable)
                  \<or> r = FetchResponse True (BodyText None)
                  \<or> r = FetchResponse True (BodyText (Some JNull)) \<longrightarrow>
                  handleAsk (Inr body) e fetch
                    = jsonResponse (ErrorBody (lit ''Internal error'')) 500)
               \<and> ((\<exists>t. r = FetchResponse False (BodyText t)) \<longrightarrow>
                    handleAsk (Inr body) e fetch
                      = jsonResponse (ErrorBody (lit ''AI service temporarily unavailable'')) 502)
               \<and> ((\<exists>data. r = FetchResponse True (BodyText (Some data)) \<and> data \<noteq> JNull
                             \<and> fetchedAnswer r = None) \<longrightarrow>
                    handleAsk (Inr body) e fetch
                      = jsonResponse
                          (ErrorBody (lit ''AI service returned an unexpected response'')) 502)
               \<and> (\<forall>a. fetchedAnswer r = Some a \<longrightarrow>
                      handleAsk (Inr body) e fetch
                        = jsonResponse (AnswerBody a (map chunk_id best)) 200)
               \<and> (status (handleAsk (Inr body) e fetch) = 200) = (fetchedAnswer r \<noteq> None)
               \<and> (fetchedAnswer r = None \<longrightarrow>
                    status (handleAsk (Inr body) e fetch) = 500
                    \<or> status (handleAsk (Inr body) e fetch) = 502)"
    if v: "validRequest body q cs" "ANTHROPIC_API_KEY e = Some key" "key \<noteq> []"
      and b: "best = bestChunks e q (sanitizeChunks cs)"
      and r: "r = fetch \<lparr>x_api_key = key, user_content = userMessage q best\<rparr>"
    for q cs key best r
  proof -
    have h: "handleAsk (Inr body) e fetch = askClaude key q best fetch"
      unfolding b by (rule handleAsk_valid[OF v])
    have r': "fetch (claudeRequest key q best) = r"
      by (simp add: r claudeRequest_def)
    note c = askClaude_cases[of key q best fetch, unfolded r']
    have a1: "r = FetchThrows \<or> (\<exists>ok. r = FetchResponse ok BodyUnreadable)
                  \<or> r = FetchResponse True (BodyText None)
                  \<or> r = FetchResponse True (BodyText (Some JNull)) \<longrightarrow>
                  handleAsk (Inr body) e fetch
                    = jsonResponse (ErrorBody (lit ''Internal error'')) 500"
      unfolding h c by (auto simp: internalError_def)
    have a2: "(\<exists>t. r = FetchResponse False (BodyText t)) \<longrightarrow>
                    handleAsk (Inr body) e fetch
                      = jsonResponse (ErrorBody (lit ''AI service temporarily unavailable'')) 502"
      unfolding h c by auto
    have a3: "(\<exists>data. r = FetchResponse True (BodyText (Some data)) \<and> data \<noteq> JNull
                             \<and> fetchedAnswer r = None) \<longrightarrow>
                    handleAsk (Inr body) e fetch
                      = jsonResponse
                          (ErrorBody (lit ''AI service returned an unexpected response'')) 502"
      unfolding h c by auto
    have a4: "\<forall>a. fetchedAnswer r = Some a \<longrightarrow>
                      handleAsk (Inr body) e fetch
                        = jsonResponse (AnswerBody a (map chunk_id best)) 200"
      unfolding h using askClaude_answer[of fetch key q best] r' by simp
    have a5: "(status (handleAsk (Inr body) e fetch) = 200) = (fetchedAnswer r \<noteq> None)"
      unfolding h using askClaude_200[of key q best fetch] r' by simp
    have a6: "fetchedAnswer r = None \<longrightarrow>
                    status (handleAsk (Inr body) e fetch) = 500
                    \<or> status (handleAsk (Inr body) e fetch) = 502"
      using a5 status_askClaude[of key q best fetch] unfolding h by auto
    show ?thesis by (intro conjI a1 a2 a3 a4 a5 a6)
  qed
  show ?thesis
    by (intro conjI 1 2 3) (use 4 in blast)
qed

theorem failures_are_distinguished_witness:
  "status (handleAsk (Inr (JObj [])) (envWith None) answeringFetch) = 400
   \<and> handleAsk (Inr (askRequest (lit ''May I build?'') [chunkA])) (envWith None) refusingFetch
       = jsonResponse (ErrorBody (lit ''AI service temporarily unavailable'')) 502
   \<and> handleAsk (Inr (askRequest (lit ''May I build?'') [chunkA])) (envWith None) unreachableFetch
       = jsonResponse (ErrorBody (lit ''Internal error'')) 500"
proof -
  let ?q = "lit ''May I build?''"
  let ?body = "askRequest ?q [chunkA]"
  let ?best = "bestChunks (envWith None) ?q (sanitizeChunks [chunkA])"
  have f: "validationFailure (JObj [])" by (simp add: validationFailure_def)
  have v: "validRequest ?body ?q [chunkA]"
    using validChunk_chunkA
    by (simp add: validRequest_def wellSized_def askRequest_def lit_def MAX_QUESTION_LENGTH_def
        MAX_CHUNKS_ACCEPTED_def)
  have k: "ANTHROPIC_API_KEY (envWith None) = Some (lit ''key'') \<and> lit ''key'' \<noteq> []"
    by (simp add: envWith_def lit_def)
  have r1: "\<exists>t. refusingFetch \<lparr>x_api_key = lit ''key'', user_content = userMessage ?q ?best\<rparr>
               = FetchResponse False (BodyText t)"
    by (simp add: refusingFetch_def)
  have r2: "unreachableFetch \<lparr>x_api_key = lit ''key'', user_content = userMessage ?q ?best\<rparr>
               = FetchThrows"
    by (simp add: unreachableFetch_def)
  have 1: "status (handleAsk (Inr (JObj [])) (envWith None) answeringFetch) = 400"
    using failures_are_distinguished[of "JObj []" "envWith None" answeringFetch] f by simp
  have 2: "handleAsk (Inr ?body) (envWith None) refusingFetch
       = jsonResponse (ErrorBody (lit ''AI service temporarily unavailable'')) 502"
    using failures_are_distinguished[of ?body "envWith None" refusingFetch] v k r1 by blast
  have 3: "handleAsk (Inr ?body) (envWith None) unreachableFetch
       = jsonResponse (ErrorBody (lit ''Internal error'')) 500"
    using failures_are_distinguished[of ?body "envWith None" unreachableFetch] v k r2 by blast
  from 1 2 3 show ?thesis by (intro conjI)
qed

text \<open>
  C9, as the code has it. When the call of the text-generation service throws (the service
  cannot be reached), a valid request is answered with status 500, not 502; and a body that
  is the JSON value \<^verbatim>\<open>null\<close>, which has no question, is answered with 500, not 400.
\<close>

theorem unreachable_service_counterexample:
  "status (handleAsk (Inr (askRequest (lit ''May I build?'') [chunkA])) (envWith None)
     unreachableFetch) = 500
   \<and> status (handleAsk (Inr JNull) (envWith None) answeringFetch) = 500"
proof -
  let ?q = "lit ''May I build?''"
  have v: "validRequest (askRequest ?q [chunkA]) ?q [chunkA]"
    using validChunk_chunkA
    by (simp add: validRequest_def wellSized_def askRequest_def lit_def MAX_QUESTION_LENGTH_def
        MAX_CHUNKS_ACCEPTED_def)
  have k: "ANTHROPIC_API_KEY (envWith None) = Some (lit ''key'')" by (simp add: envWith_def)
  have n: "lit ''key'' \<noteq> []" by (simp add: lit_def)
  have 1: "status (handleAsk (Inr (askRequest ?q [chunkA])) (envWith None) unreachableFetch) = 500"
    by (simp add: handleAsk_valid[OF v k n] askClaude_def unreachableFetch_def internalError_def
        jsonResponse_def)
  have 2: "status (handleAsk (Inr JNull) (envWith None) answeringFetch) = 500"
    by (simp add: handleAsk_def internalError_def jsonResponse_def)
  from 1 2 show ?thesis by (rule conjI)
qed

end
